theory Spec2Isabelle
  imports Complex_Main "HOL-Library.Word"
begin

unbundle bit_operations_syntax

section \<open>Machine integers of the host language\<close>

text \<open>
  Go's \<open>int\<close> and \<open>int64\<close> are 64-bit two's-complement integers on the hosts the
  interpreter targets. Where a function computes on \<open>int\<close>, the model computes on HOL's
  \<open>int\<close> and reduces every result that could leave the range with \<open>int64_wrap\<close>.
  Go's \<open>>>\<close> on a signed integer is the arithmetic shift, which is \<open>drop_bit\<close> on \<open>int\<close>
  (division rounding towards minus infinity).
\<close>


definition int64_wrap :: "int \<Rightarrow> int" where
  "int64_wrap x = (x + 2 ^ 63) mod 2 ^ 64 - 2 ^ 63"

lemma int64_wrap_id: "- (2 ^ 63) \<le> x \<Longrightarrow> x < 2 ^ 63 \<Longrightarrow> int64_wrap x = x"
  by (simp add: int64_wrap_def)

lemma int64_wrap_le: "- (2 ^ 63) \<le> x \<Longrightarrow> int64_wrap x \<le> x"
proof -
  assume "- (2 ^ 63) \<le> x"
  then have "0 \<le> x + 2 ^ 63" by simp
  then have "(x + 2 ^ 63) mod 2 ^ 64 \<le> x + 2 ^ 63"
    by (rule zmod_le_nonneg_dividend)
  then show ?thesis by (simp add: int64_wrap_def)
qed

section \<open>The floating-point byte of NEWTABLE (types.go)\<close>

text \<open>
  \<^verbatim>\<open>float8FromInt\<close> converts an \<open>int\<close> to a ``floating point byte'' \<open>eeeeexxx\<close>; the loop
  \<^verbatim>\<open>for ; x >= 0x10; e++ { x = (x + 1) >> 1 }\<close> is \<open>float8_loop\<close>, which returns the final
  \<open>x\<close> and \<open>e\<close>.
\<close>

function float8_loop :: "int \<Rightarrow> int \<Rightarrow> int \<times> int" where
  "float8_loop x e =
     (if x \<ge> 16 then float8_loop (int64_wrap (x + 1) div 2) (int64_wrap (e + 1)) else (x, e))"
  by pat_completeness auto
termination
proof (relation "measure (\<lambda>(x, e). nat x)")
  show "wf (measure (\<lambda>(x, e). nat x))" by simp
next
  fix x e :: int
  assume "16 \<le> x"
  then have "int64_wrap (x + 1) \<le> x + 1"
    by (intro int64_wrap_le) simp
  then have "int64_wrap (x + 1) div 2 < x" using \<open>16 \<le> x\<close> by linarith
  then show "((int64_wrap (x + 1) div 2, int64_wrap (e + 1)), (x, e)) \<in> measure (\<lambda>(x, e). nat x)"
    using \<open>16 \<le> x\<close> by simp
qed

declare float8_loop.simps [simp del]

definition float8FromInt :: "int \<Rightarrow> int" where
  "float8FromInt x =
     (if x < 8 then x
      else (case float8_loop x 0 of (x', e) \<Rightarrow>
              int64_wrap (push_bit 3 (int64_wrap (e + 1))) OR int64_wrap (x' - 8)))"

definition intFromFloat8 :: "int \<Rightarrow> int" where
  "intFromFloat8 x =
     (let e = drop_bit 3 x AND 31
      in if e = 0 then x
         else int64_wrap (push_bit (nat (e - 1)) (int64_wrap ((x AND 7) + 8))))"

lemma float8_loop_inv:
  assumes "float8_loop x e = (x', e')" "0 \<le> e" "8 \<le> x" "x \<le> 15 * 2 ^ k" "e + int k \<le> 30"
  shows "8 \<le> x' \<and> x' < 16 \<and> e \<le> e' \<and> e' \<le> e + int k \<and> x \<le> x' * 2 ^ nat (e' - e)"
  using assms
proof (induction x e arbitrary: k rule: float8_loop.induct)
  case (1 x e)
  show ?case
  proof (cases "16 \<le> x")
    case False
    with "1.prems" show ?thesis by (simp add: float8_loop.simps)
  next
    case True
    have kpos: "0 < k"
    proof (rule ccontr)
      assume "\<not> 0 < k" then have "k = 0" by simp
      with "1.prems"(4) True show False by simp
    qed
    then obtain j where k: "k = Suc j" by (cases k) auto
    have xb: "x < 2 ^ 62"
    proof -
      have "k \<le> 30" using "1.prems" by linarith
      then have "(2::int) ^ k \<le> 2 ^ 30" by (intro power_increasing) auto
      then have "x \<le> 15 * 2 ^ 30" using "1.prems"(4) by linarith
      then show ?thesis by simp
    qed
    have w1: "int64_wrap (x + 1) = x + 1" using True xb by (intro int64_wrap_id) auto
    have w2: "int64_wrap (e + 1) = e + 1" using "1.prems" by (intro int64_wrap_id) auto
    have step: "float8_loop ((x + 1) div 2) (e + 1) = (x', e')"
      using "1.prems"(1) True w1 w2 by (subst (asm) float8_loop.simps) simp
    have b1: "8 \<le> (x + 1) div 2" using True by linarith
    have b2: "(x + 1) div 2 \<le> 15 * 2 ^ j" using "1.prems"(4) k by simp
    have b3: "e + 1 + int j \<le> 30" using "1.prems"(5) k by simp
    have IH: "8 \<le> x' \<and> x' < 16 \<and> e + 1 \<le> e' \<and> e' \<le> e + 1 + int j
                \<and> (x + 1) div 2 \<le> x' * 2 ^ nat (e' - (e + 1))"
      using "1.IH"[OF True, of j] step w1 w2 b1 b2 b3 "1.prems"(2) by simp
    then have e': "nat (e' - e) = Suc (nat (e' - (e + 1)))" by linarith
    have "x \<le> 2 * ((x + 1) div 2)" by linarith
    also have "\<dots> \<le> 2 * (x' * 2 ^ nat (e' - (e + 1)))" using IH by simp
    also have "\<dots> = x' * 2 ^ nat (e' - e)" using e' by simp
    finally have "x \<le> x' * 2 ^ nat (e' - e)" .
    with IH k show ?thesis by simp
  qed
qed


lemma and_7_int: "(x::int) AND 7 = x mod 8"
  using take_bit_eq_mod[of 3 x] take_bit_eq_mask[of 3 x]
  by (simp add: mask_eq_exp_minus_1)

lemma and_31_int: "(x::int) AND 31 = x mod 32"
  using take_bit_eq_mod[of 5 x] take_bit_eq_mask[of 5 x]
  by (simp add: mask_eq_exp_minus_1)

lemma push3_or: "0 \<le> m \<Longrightarrow> m < 8 \<Longrightarrow> push_bit 3 (a::int) OR m = a * 8 + m"
proof -
  assume m: "0 \<le> m" "m < 8"
  then have tm: "take_bit 3 m = m" by (simp add: take_bit_eq_mod)
  have "push_bit 3 a AND take_bit 3 m = 0"
    by (auto simp add: bit_eq_iff bit_simps)
  then have "push_bit 3 a AND m = 0" using tm by simp
  then have "push_bit 3 a + m = push_bit 3 a OR m" by (rule disjunctive_add_eq_or)
  then show ?thesis by (simp add: push_bit_eq_mult)
qed

lemma intFromFloat8_decode:
  assumes "0 \<le> e" "e \<le> 30" "8 \<le> x'" "x' < 16"
  shows "intFromFloat8 (int64_wrap (push_bit 3 (int64_wrap (e + 1))) OR int64_wrap (x' - 8))
           = x' * 2 ^ nat e"
proof -
  have w1: "int64_wrap (e + 1) = e + 1" using assms by (intro int64_wrap_id) auto
  have w2: "int64_wrap (push_bit 3 (e + 1)) = push_bit 3 (e + 1)"
    using assms by (intro int64_wrap_id) (auto simp: push_bit_eq_mult)
  have w3: "int64_wrap (x' - 8) = x' - 8" using assms by (intro int64_wrap_id) auto
  have r: "push_bit 3 (e + 1) OR (x' - 8) = (e + 1) * 8 + (x' - 8)"
    using assms by (intro push3_or) auto
  have d: "drop_bit 3 ((e + 1) * 8 + (x' - 8)) AND 31 = e + 1"
    using assms by (simp add: and_31_int drop_bit_eq_div)
  have "x' mod 8 = x' - 8" using assms by presburger
  then have a: "((e + 1) * 8 + (x' - 8)) AND 7 = x' - 8"
    by (simp add: and_7_int)
  have w4: "int64_wrap (x' - 8 + 8) = x'" using assms by (simp add: int64_wrap_id)
  have "(2::int) ^ nat e \<le> 2 ^ 30" using assms by (intro power_increasing) auto
  then have "x' * 2 ^ nat e \<le> 16 * 2 ^ 30" using assms
    by (intro mult_mono) auto
  moreover have "0 \<le> x' * 2 ^ nat e" using assms by simp
  ultimately have w5: "int64_wrap (x' * 2 ^ nat e) = x' * 2 ^ nat e"
    by (intro int64_wrap_id) auto
  show ?thesis
    unfolding intFromFloat8_def w1 w2 w3 r Let_def d a
    using assms w4 w5 by (simp add: push_bit_eq_mult)
qed

text \<open>
  Claim C10. For every non-negative \<open>x\<close> that the format can hold (the exponent field has five
  bits, so \<open>x \<le> 15 * 2 ^ 30\<close>), decoding the encoded size gives at least \<open>x\<close>, and exactly
  \<open>x\<close> when \<open>x < 8\<close>.
\<close>

theorem float8_roundtrip_ge:
  assumes "0 \<le> x" "x \<le> 15 * 2 ^ 30"
  shows "x \<le> intFromFloat8 (float8FromInt x)
         \<and> (x < 8 \<longrightarrow> intFromFloat8 (float8FromInt x) = x)"
proof (cases "x < 8")
  case True
  then have "drop_bit 3 x AND 31 = 0" using assms by (simp add: drop_bit_eq_div)
  with True show ?thesis by (simp add: float8FromInt_def intFromFloat8_def)
next
  case False
  obtain x' e where l: "float8_loop x 0 = (x', e)" by (cases "float8_loop x 0")
  from float8_loop_inv[OF l, of 30] assms False
  have inv: "8 \<le> x' \<and> x' < 16 \<and> 0 \<le> e \<and> e \<le> 30 \<and> x \<le> x' * 2 ^ nat e" by simp
  then have "intFromFloat8 (float8FromInt x) = x' * 2 ^ nat e"
    using False l by (simp add: float8FromInt_def intFromFloat8_decode)
  with inv False show ?thesis by simp
qed

theorem float8_roundtrip_ge_witness:
  "(0::int) \<le> 1000 \<and> (1000::int) \<le> 15 * 2 ^ 30 \<and> 1000 \<le> intFromFloat8 (float8FromInt 1000)
    \<and> intFromFloat8 (float8FromInt 5) = 5"
  using float8_roundtrip_ge[of 1000] float8_roundtrip_ge[of 5] by simp

section \<open>Binary chunks: dump.go and undump.go\<close>

text \<open>
  The serializer writes through \<^verbatim>\<open>binary.Write\<close> in the byte order found at start-up, and
  the loader reads through \<^verbatim>\<open>binary.Read\<close> in the same order; the order is a parameter
  of every function below. The sink is a byte buffer, which never fails, so the writer is a
  function to the bytes it appends. The source is the list of bytes still unread; a read
  returns the value and the rest, or the error of \<^verbatim>\<open>io.ReadFull\<close>.

  Go strings are byte sequences. A float64 constant is carried as its IEEE-754 bit pattern,
  which is what \<^verbatim>\<open>binary.Write\<close> emits. The width of \<^verbatim>\<open>uint\<close>/\<^verbatim>\<open>uintptr\<close> on the host
  (\<open>wordsize\<close>) decides \<^verbatim>\<open>header.PointerSize\<close> (8 or 4, so the \<^verbatim>\<open>default: panic\<close> branch
  of \<^verbatim>\<open>writeString\<close> is never taken) and which \<^verbatim>\<open>size_t\<close> the reader expects.
  The field \<^verbatim>\<open>cache\<close> of a prototype is run-time state, is never serialized, and is left out.
\<close>

type_synonym byte = "8 word"
type_synonym gostring = "byte list"

datatype ByteOrder = LittleEndian | BigEndian

datatype wordsize = W32 | W64

fun le_bytes :: "nat \<Rightarrow> nat \<Rightarrow> byte list" where
  "le_bytes 0 v = []"
| "le_bytes (Suc n) v = word_of_nat v # le_bytes n (v div 256)"

fun le_value :: "byte list \<Rightarrow> nat" where
  "le_value [] = 0"
| "le_value (b # bs) = unat b + 256 * le_value bs"

definition put_uint :: "ByteOrder \<Rightarrow> nat \<Rightarrow> nat \<Rightarrow> byte list" where
  "put_uint order n v =
     (case order of LittleEndian \<Rightarrow> le_bytes n v | BigEndian \<Rightarrow> rev (le_bytes n v))"

definition get_uint :: "ByteOrder \<Rightarrow> byte list \<Rightarrow> nat" where
  "get_uint order bs =
     (case order of LittleEndian \<Rightarrow> le_value bs | BigEndian \<Rightarrow> le_value (rev bs))"

record localVariable =
  lv_name :: gostring
  startPC :: int
  endPC :: int

record upValueDesc =
  uv_name :: gostring
  isLocal :: bool
  index :: int

datatype const_value =
    CNil
  | CBool bool
  | CInt "64 word"
  | CFloat "64 word"
  | CString gostring

datatype prototype = Prototype
  (constants: "const_value list")
  (code: "32 word list")
  (prototypes: "prototype list")
  (lineInfo: "32 word list")
  (localVariables: "localVariable list")
  (upValues: "upValueDesc list")
  (source: gostring)
  (lineDefined: int)
  (lastLineDefined: int)
  (parameterCount: int)
  (maxStackSize: int)
  (isVarArg: bool)

subsection \<open>dump.go\<close>

definition host_int_wrap :: "wordsize \<Rightarrow> int \<Rightarrow> int" where
  "host_int_wrap ws x =
     (case ws of W32 \<Rightarrow> (x + 2 ^ 31) mod 2 ^ 32 - 2 ^ 31
               | W64 \<Rightarrow> (x + 2 ^ 63) mod 2 ^ 64 - 2 ^ 63)"

definition writeInt :: "ByteOrder \<Rightarrow> int \<Rightarrow> byte list" where
  "writeInt order i = put_uint order 4 (unat (word_of_int i :: 32 word))"

definition writePC :: "ByteOrder \<Rightarrow> int \<Rightarrow> byte list" where
  "writePC order p = writeInt order p"

definition writeCode :: "ByteOrder \<Rightarrow> prototype \<Rightarrow> byte list" where
  "writeCode order p =
     writeInt order (int (length (code p))) @ concat (map (\<lambda>i. put_uint order 4 (unat i)) (code p))"

definition writeByte :: "byte \<Rightarrow> byte list" where
  "writeByte b = [b]"

definition writeBool :: "bool \<Rightarrow> byte list" where
  "writeBool b = (if b then writeByte 1 else writeByte 0)"

definition writeNumber :: "ByteOrder \<Rightarrow> 64 word \<Rightarrow> byte list" where
  "writeNumber order f = put_uint order 8 (unat f)"

definition writeInteger :: "ByteOrder \<Rightarrow> 64 word \<Rightarrow> byte list" where
  "writeInteger order i = put_uint order 8 (unat i)"

definition dumpTNil :: byte where "dumpTNil = 0x00"
definition dumpTBoolean :: byte where "dumpTBoolean = 0x01"
definition dumpTNumFlt :: byte where "dumpTNumFlt = 0x03"
definition dumpTNumInt :: byte where "dumpTNumInt = 0x13"
definition dumpTShrStr :: byte where "dumpTShrStr = 0x04"
definition dumpTLngStr :: byte where "dumpTLngStr = 0x14"
definition maxShortLen :: nat where "maxShortLen = 40"

definition writeString :: "ByteOrder \<Rightarrow> wordsize \<Rightarrow> gostring \<Rightarrow> byte list" where
  "writeString order ws s =
     (let ba = s; size = int (length s) in
      if size = 0 then writeByte 0
      else
        let size = host_int_wrap ws (size + 1) in
        (if size < 0xFF then writeByte (word_of_int size)
         else writeByte 0xFF @
              (case ws of
                 W64 \<Rightarrow> put_uint order 8 (nat (size mod 2 ^ 64))
               | W32 \<Rightarrow> put_uint order 4 (nat (size mod 2 ^ 32))))
        @ ba)"

fun writeConstant :: "ByteOrder \<Rightarrow> wordsize \<Rightarrow> const_value \<Rightarrow> byte list" where
  "writeConstant order ws CNil = writeByte dumpTNil"
| "writeConstant order ws (CBool v) = writeByte dumpTBoolean @ writeBool v"
| "writeConstant order ws (CInt v) = writeByte dumpTNumInt @ writeInteger order v"
| "writeConstant order ws (CFloat v) = writeByte dumpTNumFlt @ writeNumber order v"
| "writeConstant order ws (CString v) =
     (if length v \<le> maxShortLen then writeByte dumpTShrStr else writeByte dumpTLngStr)
     @ writeString order ws v"

definition writeConstants :: "ByteOrder \<Rightarrow> wordsize \<Rightarrow> prototype \<Rightarrow> byte list" where
  "writeConstants order ws p =
     writeInt order (int (length (constants p)))
     @ concat (map (writeConstant order ws) (constants p))"

definition writeUpvalues :: "ByteOrder \<Rightarrow> prototype \<Rightarrow> byte list" where
  "writeUpvalues order p =
     writeInt order (int (length (upValues p)))
     @ concat (map (\<lambda>u. writeBool (isLocal u) @ writeByte (word_of_int (index u))) (upValues p))"

definition writeLocalVariables :: "ByteOrder \<Rightarrow> wordsize \<Rightarrow> prototype \<Rightarrow> byte list" where
  "writeLocalVariables order ws p =
     writeInt order (int (length (localVariables p)))
     @ concat (map (\<lambda>lv. writeString order ws (lv_name lv)
                          @ writePC order (startPC lv) @ writePC order (endPC lv))
                   (localVariables p))"

definition writeDebug53 :: "ByteOrder \<Rightarrow> wordsize \<Rightarrow> prototype \<Rightarrow> byte list" where
  "writeDebug53 order ws p =
     writeInt order (int (length (lineInfo p)))
     @ concat (map (\<lambda>l. put_uint order 4 (unat l)) (lineInfo p))
     @ writeLocalVariables order ws p
     @ writeInt order (int (length (upValues p)))
     @ concat (map (\<lambda>uv. writeString order ws (uv_name uv)) (upValues p))"

fun dumpFunction :: "ByteOrder \<Rightarrow> wordsize \<Rightarrow> prototype \<Rightarrow> byte list" where
  "dumpFunction order ws (Prototype ks cd ps li lvs uvs src ld lld pc mss va) =
     (let p = Prototype ks cd ps li lvs uvs src ld lld pc mss va in
      writeString order ws src
      @ writeInt order ld
      @ writeInt order lld
      @ writeByte (word_of_int pc)
      @ writeBool va
      @ writeByte (word_of_int mss)
      @ writeCode order p
      @ writeConstants order ws p
      @ writeUpvalues order p
      @ (writeInt order (int (length ps)) @ concat (map (dumpFunction order ws) ps))
      @ writeDebug53 order ws p)"


subsection \<open>undump.go\<close>

datatype load_error =
    errEOF
  | errUnexpectedEOF
  | errUnknownConstantType
  | errNotPrecompiledChunk
  | errVersionMismatch
  | errIncompatible
  | errCorrupted
  | errPanic

text \<open>
  A read ends with a value and the unread bytes, or with an error. \<open>errPanic\<close> stands for the
  run-time panic of \<^verbatim>\<open>make\<close> on a negative or oversized length. \<open>readFunction\<close> recurses
  into nested prototypes; its first argument bounds the nesting depth, and \<open>OutOfFuel\<close> says
  that the bound was reached.
\<close>

datatype 'a result = Ok 'a "byte list" | Err load_error | OutOfFuel

type_synonym 'a reader = "byte list \<Rightarrow> 'a result"

definition rret :: "'a \<Rightarrow> 'a reader" where
  "rret x bs = Ok x bs"

definition rfail :: "load_error \<Rightarrow> 'a reader" where
  "rfail e bs = Err e"

definition rbind :: "'a reader \<Rightarrow> ('a \<Rightarrow> 'b reader) \<Rightarrow> 'b reader" where
  "rbind r f bs = (case r bs of Ok x bs' \<Rightarrow> f x bs' | Err e \<Rightarrow> Err e | OutOfFuel \<Rightarrow> OutOfFuel)"

definition read_bytes :: "nat \<Rightarrow> (byte list) reader" where
  "read_bytes n bs =
     (if n = 0 then Ok [] bs
      else if bs = [] then Err errEOF
      else if length bs < n then Err errUnexpectedEOF
      else Ok (take n bs) (drop n bs))"

fun read_n :: "nat \<Rightarrow> 'a reader \<Rightarrow> ('a list) reader" where
  "read_n 0 r = rret []"
| "read_n (Suc n) r = rbind r (\<lambda>x. rbind (read_n n r) (\<lambda>xs. rret (x # xs)))"

fun decode_u32s :: "ByteOrder \<Rightarrow> byte list \<Rightarrow> 32 word list" where
  "decode_u32s order (a # b # c # d # rest) =
     word_of_nat (get_uint order [a, b, c, d]) # decode_u32s order rest"
| "decode_u32s order _ = []"

fun decode_pairs :: "byte list \<Rightarrow> (byte \<times> byte) list" where
  "decode_pairs (a # b # rest) = (a, b) # decode_pairs rest"
| "decode_pairs _ = []"

definition host_max_int :: "wordsize \<Rightarrow> nat" where
  "host_max_int ws = (case ws of W32 \<Rightarrow> 2 ^ 31 - 1 | W64 \<Rightarrow> 2 ^ 63 - 1)"

definition loadState_readNumber :: "ByteOrder \<Rightarrow> (64 word) reader" where
  "loadState_readNumber order = rbind (read_bytes 8) (\<lambda>b. rret (word_of_nat (get_uint order b)))"

definition readInteger :: "ByteOrder \<Rightarrow> (64 word) reader" where
  "readInteger order = rbind (read_bytes 8) (\<lambda>b. rret (word_of_nat (get_uint order b)))"

definition readInt :: "ByteOrder \<Rightarrow> int reader" where
  "readInt order =
     rbind (read_bytes 4) (\<lambda>b. rret (sint (word_of_nat (get_uint order b) :: 32 word)))"

definition readPC :: "ByteOrder \<Rightarrow> int reader" where
  "readPC order = readInt order"

definition readByte :: "byte reader" where
  "readByte = rbind (read_bytes 1) (\<lambda>b. rret (hd b))"

definition readBool :: "bool reader" where
  "readBool = rbind readByte (\<lambda>b. rret (b \<noteq> 0))"

definition readString :: "ByteOrder \<Rightarrow> wordsize \<Rightarrow> gostring reader" where
  "readString order ws =
     rbind readByte (\<lambda>sizeByte.
       if sizeByte = 0 then rret []
       else
         rbind (if sizeByte = 0xFF
                then (case ws of
                        W64 \<Rightarrow> rbind (read_bytes 8) (\<lambda>b. rret (get_uint order b))
                      | W32 \<Rightarrow> rbind (read_bytes 4) (\<lambda>b. rret (get_uint order b)))
                else rret (unat sizeByte))
           (\<lambda>size.
              if size = 0 then rret []
              else if size - 1 > host_max_int ws then rfail errPanic
              else read_bytes (size - 1)))"

definition readCode :: "ByteOrder \<Rightarrow> (32 word list) reader" where
  "readCode order =
     rbind (readInt order) (\<lambda>n.
       if n = 0 then rret []
       else if n < 0 then rfail errPanic
       else rbind (read_bytes (4 * nat n)) (\<lambda>b. rret (decode_u32s order b)))"

definition readUpValues :: "ByteOrder \<Rightarrow> (upValueDesc list) reader" where
  "readUpValues order =
     rbind (readInt order) (\<lambda>n.
       if n = 0 then rret []
       else if n < 0 then rfail errPanic
       else rbind (read_bytes (2 * nat n)) (\<lambda>b.
              rret (map (\<lambda>(l, i). \<lparr>uv_name = [], isLocal = (l \<noteq> 0), index = uint i\<rparr>)
                        (decode_pairs b))))"

definition readLocalVariable :: "ByteOrder \<Rightarrow> wordsize \<Rightarrow> localVariable reader" where
  "readLocalVariable order ws =
     rbind (readString order ws) (\<lambda>nm.
     rbind (readPC order) (\<lambda>s.
     rbind (readPC order) (\<lambda>e.
       rret \<lparr>lv_name = nm, startPC = s, endPC = e\<rparr>)))"

definition readLocalVariables :: "ByteOrder \<Rightarrow> wordsize \<Rightarrow> (localVariable list) reader" where
  "readLocalVariables order ws =
     rbind (readInt order) (\<lambda>n.
       if n = 0 then rret []
       else if n < 0 then rfail errPanic
       else read_n (nat n) (readLocalVariable order ws))"

definition readLineInfo :: "ByteOrder \<Rightarrow> (32 word list) reader" where
  "readLineInfo order =
     rbind (readInt order) (\<lambda>n.
       if n = 0 then rret []
       else if n < 0 then rfail errPanic
       else rbind (read_bytes (4 * nat n)) (\<lambda>b. rret (decode_u32s order b)))"

fun readUpValueNames ::
  "ByteOrder \<Rightarrow> wordsize \<Rightarrow> nat \<Rightarrow> upValueDesc list \<Rightarrow> (upValueDesc list) reader" where
  "readUpValueNames order ws 0 us = rret us"
| "readUpValueNames order ws (Suc k) [] = rret []"
| "readUpValueNames order ws (Suc k) (u # us) =
     rbind (readString order ws) (\<lambda>s.
     rbind (readUpValueNames order ws k us) (\<lambda>us'.
       rret (u\<lparr>uv_name := s\<rparr> # us')))"

definition readDebug53 ::
  "ByteOrder \<Rightarrow> wordsize \<Rightarrow> upValueDesc list
     \<Rightarrow> (32 word list \<times> localVariable list \<times> upValueDesc list) reader" where
  "readDebug53 order ws ups =
     rbind (readLineInfo order) (\<lambda>li.
     rbind (readLocalVariables order ws) (\<lambda>lvs.
     rbind (readInt order) (\<lambda>n.
     rbind (readUpValueNames order ws (nat n) ups) (\<lambda>ups'.
       rret (li, lvs, ups')))))"

definition luaTNil :: byte where "luaTNil = 0x00"
definition luaTBoolean :: byte where "luaTBoolean = 0x01"
definition luaTNumFlt :: byte where "luaTNumFlt = 0x03"
definition luaTNumInt :: byte where "luaTNumInt = 0x13"
definition luaTShrStr :: byte where "luaTShrStr = 0x04"
definition luaTLngStr :: byte where "luaTLngStr = 0x14"

definition readConstant :: "ByteOrder \<Rightarrow> wordsize \<Rightarrow> const_value reader" where
  "readConstant order ws =
     rbind readByte (\<lambda>t.
       if t = luaTNil then rret CNil
       else if t = luaTBoolean then rbind readBool (\<lambda>b. rret (CBool b))
       else if t = luaTNumFlt then rbind (loadState_readNumber order) (\<lambda>f. rret (CFloat f))
       else if t = luaTNumInt then rbind (readInteger order) (\<lambda>i. rret (CInt i))
       else if t = luaTShrStr \<or> t = luaTLngStr
         then rbind (readString order ws) (\<lambda>s. rret (CString s))
       else rfail errUnknownConstantType)"

definition readConstants :: "ByteOrder \<Rightarrow> wordsize \<Rightarrow> (const_value list) reader" where
  "readConstants order ws =
     rbind (readInt order) (\<lambda>n.
       if n = 0 then rret []
       else if n < 0 then rfail errPanic
       else read_n (nat n) (readConstant order ws))"

fun readFunction :: "nat \<Rightarrow> ByteOrder \<Rightarrow> wordsize \<Rightarrow> prototype reader" where
  "readFunction 0 order ws = (\<lambda>bs. OutOfFuel)"
| "readFunction (Suc fuel) order ws =
     rbind (readString order ws) (\<lambda>src.
     rbind (readInt order) (\<lambda>ld.
     rbind (readInt order) (\<lambda>lld.
     rbind readByte (\<lambda>pc.
     rbind readByte (\<lambda>va.
     rbind readByte (\<lambda>mss.
     rbind (readCode order) (\<lambda>cd.
     rbind (readConstants order ws) (\<lambda>ks.
     rbind (readUpValues order) (\<lambda>ups.
     rbind (rbind (readInt order) (\<lambda>n.
              if n = 0 then rret []
              else if n < 0 then rfail errPanic
              else read_n (nat n) (readFunction fuel order ws))) (\<lambda>ps.
     rbind (readDebug53 order ws ups) (\<lambda>(li, lvs, ups').
       rret (Prototype ks cd ps li lvs ups' src ld lld (uint pc) (uint mss) (va \<noteq> 0)))))))))))))"



subsection \<open>Byte-order lemmas\<close>

lemma length_le_bytes [simp]: "length (le_bytes n v) = n"
  by (induction n arbitrary: v) auto

lemma le_value_le_bytes: "v < 256 ^ n \<Longrightarrow> le_value (le_bytes n v) = v"
proof (induction n arbitrary: v)
  case 0
  then show ?case by simp
next
  case (Suc n)
  then have "v div 256 < 256 ^ n"
    by (simp add: less_mult_imp_div_less mult.commute)
  then have "le_value (le_bytes n (v div 256)) = v div 256" by (rule Suc.IH)
  moreover have "unat (word_of_nat v :: byte) = v mod 256"
    by (simp add: unat_of_nat)
  ultimately show ?case by simp
qed

lemma le_value_append: "le_value (xs @ ys) = le_value xs + 256 ^ length xs * le_value ys"
  by (induction xs) (auto simp: algebra_simps)

lemma length_put_uint [simp]: "length (put_uint order n v) = n"
  by (cases order) (auto simp: put_uint_def)

lemma get_put_uint: "v < 256 ^ n \<Longrightarrow> get_uint order (put_uint order n v) = v"
  by (cases order) (auto simp: put_uint_def get_uint_def le_value_le_bytes)

subsection \<open>Reader lemmas\<close>

lemma rbind_Ok: "r bs = Ok x bs' \<Longrightarrow> rbind r f bs = f x bs'"
  by (simp add: rbind_def)

lemma read_bytes_append: "length xs = n \<Longrightarrow> read_bytes n (xs @ rest) = Ok xs rest"
  by (cases xs) (auto simp: read_bytes_def)

lemma readByte_Cons [simp]: "readByte (b # rest) = Ok b rest"
  by (simp add: readByte_def rbind_def read_bytes_def rret_def)

lemma readBool_writeBool [simp]: "readBool (writeBool b @ rest) = Ok b rest"
  by (simp add: readBool_def writeBool_def writeByte_def rbind_def rret_def)

lemma readInt_writeInt:
  assumes "- (2 ^ 31) \<le> i" "i < 2 ^ 31"
  shows "readInt order (writeInt order i @ rest) = Ok i rest"
proof -
  let ?w = "word_of_int i :: 32 word"
  have "unat ?w < 2 ^ 32" using unsigned_less[of ?w] by simp
  then have g: "get_uint order (put_uint order 4 (unat ?w)) = unat ?w"
    by (intro get_put_uint) simp
  have s: "sint ?w = i"
    using assms by (simp add: signed_of_int signed_take_bit_int_eq_self)
  have "read_bytes 4 (put_uint order 4 (unat ?w) @ rest) = Ok (put_uint order 4 (unat ?w)) rest"
    by (rule read_bytes_append) simp
  then show ?thesis
    by (simp add: readInt_def writeInt_def rbind_def rret_def g s)
qed

lemma read_u64_put:
  "rbind (read_bytes 8) (\<lambda>b. rret (word_of_nat (get_uint order b) :: 64 word))
     (put_uint order 8 (unat (w :: 64 word)) @ rest) = Ok w rest"
proof -
  have "unat w < 2 ^ 64" using unsigned_less[of w] by simp
  then have g: "get_uint order (put_uint order 8 (unat w)) = unat w"
    by (intro get_put_uint) simp
  have "read_bytes 8 (put_uint order 8 (unat w) @ rest) = Ok (put_uint order 8 (unat w)) rest"
    by (rule read_bytes_append) simp
  then show ?thesis by (simp add: rbind_def rret_def g)
qed

lemma loadState_readNumber_writeNumber [simp]:
  "loadState_readNumber order (writeNumber order f @ rest) = Ok f rest"
  by (simp add: loadState_readNumber_def writeNumber_def read_u64_put)

lemma readInteger_writeInteger [simp]:
  "readInteger order (writeInteger order i @ rest) = Ok i rest"
  by (simp add: readInteger_def writeInteger_def read_u64_put)

subsection \<open>Strings\<close>

lemma host_int_wrap_id:
  "0 \<le> x \<Longrightarrow> x \<le> int (host_max_int ws) \<Longrightarrow> host_int_wrap ws x = x"
  by (cases ws) (auto simp: host_int_wrap_def host_max_int_def)

lemma writeString_empty: "writeString order ws [] = [0]"
  by (simp add: writeString_def writeByte_def)

lemma writeString_short:
  assumes "s \<noteq> []" "length s + 1 < 255"
  shows "writeString order ws s = word_of_nat (length s + 1) # s"
proof -
  have "int (length s) + 1 \<le> int (host_max_int ws)"
    using assms by (cases ws) (auto simp: host_max_int_def)
  then have "host_int_wrap ws (int (length s) + 1) = int (length s) + 1"
    by (intro host_int_wrap_id) auto
  moreover have "(word_of_int (int (length s) + 1) :: byte) = word_of_nat (length s + 1)"
    by simp
  ultimately show ?thesis
    using assms by (simp add: writeString_def writeByte_def Let_def)
qed

lemma writeString_long:
  assumes "255 \<le> length s + 1" "length s < host_max_int ws"
  shows "writeString order ws s =
           0xFF # put_uint order (case ws of W64 \<Rightarrow> 8 | W32 \<Rightarrow> 4) (length s + 1) @ s"
proof -
  have w: "host_int_wrap ws (int (length s) + 1) = int (length s) + 1"
    using assms by (intro host_int_wrap_id) auto
  have m: "nat ((int (length s) + 1) mod (case ws of W64 \<Rightarrow> 2 ^ 64 | W32 \<Rightarrow> 2 ^ 32)) = length s + 1"
    using assms(2) by (cases ws) (auto simp: host_max_int_def nat_add_distrib)
  have n1: "nat (int (length s) + 1) = Suc (length s)" by simp
  show ?thesis
    using assms w m by (cases ws) (auto simp: writeString_def writeByte_def Let_def n1)
qed

lemma readString_writeString:
  assumes "length s < host_max_int ws"
  shows "readString order ws (writeString order ws s @ rest) = Ok s rest"
proof (cases "s = []")
  case True
  then show ?thesis
    by (simp add: writeString_empty readString_def rbind_def rret_def)
next
  case False
  show ?thesis
  proof (cases "length s + 1 < 255")
    case True
    define b :: byte where "b = word_of_nat (length s + 1)"
    have u: "unat b = length s + 1"
      unfolding b_def using True unat_of_nat[where 'a=8, of "length s + 1"] by simp
    have nz: "b \<noteq> 0"
    proof
      assume "b = 0"
      then have "unat b = 0" by simp
      with u show False by simp
    qed
    have nf: "b \<noteq> 0xFF"
    proof
      assume "b = 0xFF"
      then have "unat b = 255" by simp
      with u True show False by simp
    qed
    have w: "writeString order ws s = b # s"
      unfolding b_def using False True by (rule writeString_short)
    have "read_bytes (length s) (s @ rest) = Ok s rest"
      by (rule read_bytes_append) simp
    then show ?thesis
      using assms by (simp add: w readString_def rbind_def rret_def u nz nf)
  next
    case long: False
    let ?k = "case ws of W64 \<Rightarrow> 8 | W32 \<Rightarrow> (4 :: nat)"
    have lt: "length s + 1 < 256 ^ ?k"
      using assms by (cases ws) (auto simp: host_max_int_def)
    have g: "get_uint order (put_uint order ?k (length s + 1)) = length s + 1"
      using lt by (rule get_put_uint)
    have rb: "read_bytes ?k (put_uint order ?k (length s + 1) @ s @ rest)
                = Ok (put_uint order ?k (length s + 1)) (s @ rest)"
      by (rule read_bytes_append) simp
    have rs: "read_bytes (length s) (s @ rest) = Ok s rest"
      by (rule read_bytes_append) simp
    have wsl: "writeString order ws s = 0xFF # put_uint order ?k (length s + 1) @ s"
      using long assms by (intro writeString_long) auto
    show ?thesis
      using assms rb rs g wsl
      by (cases ws) (auto simp: readString_def rbind_def rret_def rfail_def)
  qed
qed


subsection \<open>Arrays of fixed-size elements\<close>

lemma length_4_cases: "length xs = 4 \<Longrightarrow> \<exists>a b c d. xs = [a, b, c, d]"
  by (auto simp: length_Suc_conv numeral_eq_Suc)

lemma decode_u32s_concat:
  "decode_u32s order (concat (map (\<lambda>i. put_uint order 4 (unat i)) ws)) = ws"
proof (induction ws)
  case Nil
  then show ?case by simp
next
  case (Cons w ws)
  obtain a b c d where p: "put_uint order 4 (unat w) = [a, b, c, d]"
    using length_4_cases[of "put_uint order 4 (unat w)"] by auto
  have "unat w < 2 ^ 32" using unsigned_less[of w] by simp
  then have "get_uint order (put_uint order 4 (unat w)) = unat w"
    by (intro get_put_uint) simp
  then have "get_uint order [a, b, c, d] = unat w" by (simp add: p)
  then show ?case using Cons.IH by (simp add: p)
qed

lemma length_concat_u32s:
  "length (concat (map (\<lambda>i. put_uint order 4 (unat i)) ws)) = 4 * length ws"
  by (induction ws) auto

lemma read_u32_array:
  assumes "length ws < 2 ^ 31"
  shows "rbind (readInt order) (\<lambda>n.
           if n = 0 then rret []
           else if n < 0 then rfail errPanic
           else rbind (read_bytes (4 * nat n)) (\<lambda>b. rret (decode_u32s order b)))
           (writeInt order (int (length ws))
              @ concat (map (\<lambda>i. put_uint order 4 (unat i)) ws) @ rest)
         = Ok ws rest"
proof -
  have ri: "readInt order (writeInt order (int (length ws))
              @ concat (map (\<lambda>i. put_uint order 4 (unat i)) ws) @ rest)
            = Ok (int (length ws)) (concat (map (\<lambda>i. put_uint order 4 (unat i)) ws) @ rest)"
    using assms by (intro readInt_writeInt) auto
  show ?thesis
  proof (cases "ws = []")
    case True
    with ri show ?thesis by (simp add: rbind_def rret_def)
  next
    case False
    have "read_bytes (4 * length ws) (concat (map (\<lambda>i. put_uint order 4 (unat i)) ws) @ rest)
            = Ok (concat (map (\<lambda>i. put_uint order 4 (unat i)) ws)) rest"
      by (rule read_bytes_append) (simp add: length_concat_u32s)
    with ri False show ?thesis
      by (simp add: rbind_def rret_def decode_u32s_concat)
  qed
qed

lemma readCode_writeCode:
  "length (code p) < 2 ^ 31 \<Longrightarrow> readCode order (writeCode order p @ rest) = Ok (code p) rest"
  unfolding readCode_def writeCode_def using read_u32_array[of "code p" order rest] by simp

subsection \<open>Sequences read element by element\<close>

lemma read_n_concat:
  assumes "\<And>x rest. x \<in> set xs \<Longrightarrow> r (w x @ rest) = Ok x rest"
  shows "read_n (length xs) r (concat (map w xs) @ rest) = Ok xs rest"
  using assms
proof (induction xs arbitrary: rest)
  case Nil
  then show ?case by (simp add: rret_def)
next
  case (Cons x xs)
  have "r (w x @ concat (map w xs) @ rest) = Ok x (concat (map w xs) @ rest)"
    using Cons.prems by simp
  moreover have "read_n (length xs) r (concat (map w xs) @ rest) = Ok xs rest"
    using Cons by simp
  ultimately show ?case by (simp add: rbind_def rret_def)
qed

lemma read_counted_list:
  assumes "length xs < 2 ^ 31"
    and "\<And>x rest. x \<in> set xs \<Longrightarrow> r (w x @ rest) = Ok x rest"
  shows "rbind (readInt order) (\<lambda>n.
           if n = 0 then rret []
           else if n < 0 then rfail errPanic
           else read_n (nat n) r)
           (writeInt order (int (length xs)) @ concat (map w xs) @ rest)
         = Ok xs rest"
proof -
  have ri: "readInt order (writeInt order (int (length xs)) @ concat (map w xs) @ rest)
            = Ok (int (length xs)) (concat (map w xs) @ rest)"
    using assms(1) by (intro readInt_writeInt) auto
  show ?thesis
  proof (cases "xs = []")
    case True
    with ri show ?thesis by (simp add: rbind_def rret_def)
  next
    case False
    have "read_n (length xs) r (concat (map w xs) @ rest) = Ok xs rest"
      using assms(2) by (rule read_n_concat)
    with ri False show ?thesis by (simp add: rbind_def rret_def)
  qed
qed


subsection \<open>Valid prototypes\<close>

definition valid_string :: "wordsize \<Rightarrow> gostring \<Rightarrow> bool" where
  "valid_string ws s = (length s < host_max_int ws)"

definition fits_int32 :: "int \<Rightarrow> bool" where
  "fits_int32 i = (- (2 ^ 31) \<le> i \<and> i < 2 ^ 31)"

definition fits_byte :: "int \<Rightarrow> bool" where
  "fits_byte i = (0 \<le> i \<and> i < 256)"

fun valid_constant :: "wordsize \<Rightarrow> const_value \<Rightarrow> bool" where
  "valid_constant ws (CString s) = valid_string ws s"
| "valid_constant ws _ = True"

definition valid_local :: "wordsize \<Rightarrow> localVariable \<Rightarrow> bool" where
  "valid_local ws lv =
     (valid_string ws (lv_name lv) \<and> fits_int32 (startPC lv) \<and> fits_int32 (endPC lv))"

definition valid_upvalue :: "wordsize \<Rightarrow> upValueDesc \<Rightarrow> bool" where
  "valid_upvalue ws u = (valid_string ws (uv_name u) \<and> fits_byte (index u))"

fun valid_prototype :: "wordsize \<Rightarrow> prototype \<Rightarrow> bool" where
  "valid_prototype ws (Prototype ks cd ps li lvs uvs src ld lld pc mss va) =
     (length ks < 2 ^ 31 \<and> length cd < 2 ^ 31 \<and> length ps < 2 ^ 31 \<and> length li < 2 ^ 31
      \<and> length lvs < 2 ^ 31 \<and> length uvs < 2 ^ 31
      \<and> valid_string ws src \<and> fits_int32 ld \<and> fits_int32 lld
      \<and> fits_byte pc \<and> fits_byte mss
      \<and> list_all (valid_constant ws) ks
      \<and> list_all (valid_local ws) lvs
      \<and> list_all (valid_upvalue ws) uvs
      \<and> list_all (valid_prototype ws) ps)"

fun proto_depth :: "prototype \<Rightarrow> nat" where
  "proto_depth (Prototype ks cd ps li lvs uvs src ld lld pc mss va) =
     Suc (foldr max (map proto_depth ps) 0)"

subsection \<open>Constants, local variables, upvalues\<close>

lemma readConstant_writeConstant:
  assumes "valid_constant ws k"
  shows "readConstant order ws (writeConstant order ws k @ rest) = Ok k rest"
proof (cases k)
  case CNil
  then show ?thesis
    by (simp add: readConstant_def writeByte_def dumpTNil_def luaTNil_def rbind_def rret_def)
next
  case (CBool b)
  then show ?thesis
    by (simp add: readConstant_def writeByte_def dumpTBoolean_def luaTNil_def luaTBoolean_def
        rbind_def rret_def)
next
  case (CInt i)
  then show ?thesis
    by (simp add: readConstant_def writeByte_def dumpTNumInt_def luaTNil_def luaTBoolean_def
        luaTNumFlt_def luaTNumInt_def rbind_def rret_def)
next
  case (CFloat f)
  then show ?thesis
    by (simp add: readConstant_def writeByte_def dumpTNumFlt_def luaTNil_def luaTBoolean_def
        luaTNumFlt_def rbind_def rret_def)
next
  case (CString s)
  then have "readString order ws (writeString order ws s @ rest) = Ok s rest"
    using assms by (intro readString_writeString) (simp add: valid_string_def)
  with CString show ?thesis
    by (simp add: readConstant_def writeByte_def dumpTShrStr_def dumpTLngStr_def luaTNil_def
        luaTBoolean_def luaTNumFlt_def luaTNumInt_def luaTShrStr_def luaTLngStr_def
        rbind_def rret_def)
qed

lemma readConstants_writeConstants:
  assumes "length (constants p) < 2 ^ 31" "list_all (valid_constant ws) (constants p)"
  shows "readConstants order ws (writeConstants order ws p @ rest) = Ok (constants p) rest"
  unfolding readConstants_def writeConstants_def append_assoc
  using assms
  by (intro read_counted_list) (auto simp: list_all_iff readConstant_writeConstant)

lemma readLocalVariable_write:
  assumes "valid_local ws lv"
  shows "readLocalVariable order ws
           (writeString order ws (lv_name lv) @ writePC order (startPC lv)
              @ writePC order (endPC lv) @ rest) = Ok lv rest"
proof -
  have s: "\<And>r. readString order ws (writeString order ws (lv_name lv) @ r) = Ok (lv_name lv) r"
    using assms by (intro readString_writeString) (simp add: valid_local_def valid_string_def)
  have a: "\<And>r. readInt order (writeInt order (startPC lv) @ r) = Ok (startPC lv) r"
    using assms by (intro readInt_writeInt) (auto simp: valid_local_def fits_int32_def)
  have b: "\<And>r. readInt order (writeInt order (endPC lv) @ r) = Ok (endPC lv) r"
    using assms by (intro readInt_writeInt) (auto simp: valid_local_def fits_int32_def)
  show ?thesis
    by (simp add: readLocalVariable_def readPC_def writePC_def rbind_def rret_def s a b)
qed

lemma readLocalVariables_write:
  assumes "length (localVariables p) < 2 ^ 31" "list_all (valid_local ws) (localVariables p)"
  shows "readLocalVariables order ws (writeLocalVariables order ws p @ rest)
           = Ok (localVariables p) rest"
  unfolding readLocalVariables_def writeLocalVariables_def append_assoc
  using assms
  by (intro read_counted_list) (auto simp: list_all_iff readLocalVariable_write)

lemma decode_pairs_concat:
  "decode_pairs (concat (map (\<lambda>u. [f u, g u]) us)) = map (\<lambda>u. (f u, g u)) us"
  by (induction us) auto

lemma length_concat_pairs:
  "length (concat (map (\<lambda>u. [f u, g u]) us)) = 2 * length us"
  by (induction us) auto

lemma readUpValues_writeUpvalues:
  assumes "length (upValues p) < 2 ^ 31" "list_all (valid_upvalue ws) (upValues p)"
  shows "readUpValues order (writeUpvalues order p @ rest)
           = Ok (map (\<lambda>u. u\<lparr>uv_name := []\<rparr>) (upValues p)) rest"
proof -
  let ?us = "upValues p"
  let ?f = "\<lambda>u :: upValueDesc. if isLocal u then 1 else (0 :: byte)"
  let ?g = "\<lambda>u :: upValueDesc. word_of_int (index u) :: byte"
  let ?body = "concat (map (\<lambda>u. [?f u, ?g u]) ?us)"
  have "\<And>u :: upValueDesc.
          writeBool (isLocal u) @ writeByte (word_of_int (index u)) = [?f u, ?g u]"
    by (simp add: writeBool_def writeByte_def)
  then have w: "writeUpvalues order p = writeInt order (int (length ?us)) @ ?body"
    by (simp add: writeUpvalues_def)
  have ri: "readInt order (writeInt order (int (length ?us)) @ ?body @ rest)
              = Ok (int (length ?us)) (?body @ rest)"
    using assms(1) by (intro readInt_writeInt) auto
  show ?thesis
  proof (cases "?us = []")
    case True
    with ri show ?thesis by (simp add: w readUpValues_def rbind_def rret_def)
  next
    case False
    have len: "length ?body = 2 * length ?us" by (rule length_concat_pairs)
    have rb: "read_bytes (2 * length ?us) (?body @ rest) = Ok ?body rest"
      by (rule read_bytes_append) (rule len)
    have dec: "map (\<lambda>(l, i). \<lparr>uv_name = [], isLocal = (l \<noteq> 0), index = uint i\<rparr>)
                 (decode_pairs ?body) = map (\<lambda>u. u\<lparr>uv_name := []\<rparr>) ?us"
    proof -
      have "\<And>u. u \<in> set ?us \<Longrightarrow> uint (?g u) = index u"
        using assms(2)
        by (auto simp: list_all_iff valid_upvalue_def fits_byte_def unsigned_of_int take_bit_int_eq_self)
      then show ?thesis
        by (simp add: decode_pairs_concat)
    qed
    show ?thesis
      using False ri rb dec by (simp add: w readUpValues_def rbind_def rret_def)
  qed
qed

lemma readUpValueNames_write:
  assumes "length us' = length us" "list_all (\<lambda>u. valid_string ws (uv_name u)) us"
  shows "readUpValueNames order ws (length us) us'
           (concat (map (\<lambda>uv. writeString order ws (uv_name uv)) us) @ rest)
         = Ok (map (\<lambda>(u', u). u'\<lparr>uv_name := uv_name u\<rparr>) (zip us' us)) rest"
  using assms
proof (induction us arbitrary: us' rest)
  case Nil
  then show ?case by (simp add: rret_def)
next
  case (Cons u us)
  then obtain v vs where us': "us' = v # vs" by (cases us') auto
  have s: "\<And>r. readString order ws (writeString order ws (uv_name u) @ r) = Ok (uv_name u) r"
    using Cons.prems by (intro readString_writeString) (simp add: valid_string_def)
  have "readUpValueNames order ws (length us) vs
          (concat (map (\<lambda>uv. writeString order ws (uv_name uv)) us) @ rest)
        = Ok (map (\<lambda>(u', u). u'\<lparr>uv_name := uv_name u\<rparr>) (zip vs us)) rest"
    using Cons.prems us' by (intro Cons.IH) auto
  then show ?case by (simp add: us' rbind_def rret_def s)
qed


lemma restore_names:
  "map (\<lambda>(u', u). u'\<lparr>uv_name := uv_name u\<rparr>) (zip (map (\<lambda>u. u\<lparr>uv_name := []\<rparr>) us) us)
     = (us :: upValueDesc list)"
  by (induction us) auto

lemma readDebug53_writeDebug53:
  assumes "length (lineInfo p) < 2 ^ 31"
    and "length (localVariables p) < 2 ^ 31" "list_all (valid_local ws) (localVariables p)"
    and "length (upValues p) < 2 ^ 31" "list_all (valid_upvalue ws) (upValues p)"
  shows "readDebug53 order ws (map (\<lambda>u. u\<lparr>uv_name := []\<rparr>) (upValues p))
           (writeDebug53 order ws p @ rest)
         = Ok (lineInfo p, localVariables p, upValues p) rest"
proof -
  let ?us = "upValues p"
  let ?names = "concat (map (\<lambda>uv. writeString order ws (uv_name uv)) ?us)"
  have a: "\<And>r. readLineInfo order
             (writeInt order (int (length (lineInfo p)))
                @ concat (map (\<lambda>l. put_uint order 4 (unat l)) (lineInfo p)) @ r)
             = Ok (lineInfo p) r"
    unfolding readLineInfo_def using assms(1) by (rule read_u32_array)
  have b: "\<And>r. readLocalVariables order ws (writeLocalVariables order ws p @ r)
             = Ok (localVariables p) r"
    using assms(2,3) by (rule readLocalVariables_write)
  have c: "\<And>r. readInt order (writeInt order (int (length ?us)) @ r) = Ok (int (length ?us)) r"
    using assms(4) by (intro readInt_writeInt) auto
  have "list_all (\<lambda>u. valid_string ws (uv_name u)) ?us"
    using assms(5) by (auto simp: list_all_iff valid_upvalue_def)
  then have d: "readUpValueNames order ws (length ?us) (map (\<lambda>u. u\<lparr>uv_name := []\<rparr>) ?us)
                  (?names @ rest) = Ok ?us rest"
    using readUpValueNames_write[of "map (\<lambda>u. u\<lparr>uv_name := []\<rparr>) ?us" ?us ws order rest]
    by (simp add: restore_names)
  show ?thesis
    by (simp add: readDebug53_def writeDebug53_def rbind_def rret_def a b c d)
qed

lemma foldr_max_ge: "x \<in> set xs \<Longrightarrow> x \<le> foldr max xs (0 :: nat)"
  by (induction xs) (auto simp: max_def)

lemma readFunction_dumpFunction_ok:
  assumes "valid_prototype ws p" "proto_depth p \<le> fuel"
  shows "readFunction fuel order ws (dumpFunction order ws p @ rest) = Ok p rest"
  using assms
proof (induction p arbitrary: fuel rest)
  case (Prototype ks cd ps li lvs uvs src ld lld pc mss va)
  let ?p = "Prototype ks cd ps li lvs uvs src ld lld pc mss va"
  from Prototype.prems(2) obtain k where fuel: "fuel = Suc k"
    and k: "foldr max (map proto_depth ps) 0 \<le> k"
    by (cases fuel) auto
  note v = Prototype.prems(1)
  have s1: "\<And>r. readString order ws (writeString order ws src @ r) = Ok src r"
    using v by (intro readString_writeString) (simp add: valid_string_def)
  have s2: "\<And>r. readInt order (writeInt order ld @ r) = Ok ld r"
    using v by (intro readInt_writeInt) (auto simp: fits_int32_def)
  have s3: "\<And>r. readInt order (writeInt order lld @ r) = Ok lld r"
    using v by (intro readInt_writeInt) (auto simp: fits_int32_def)
  have s4: "uint (word_of_int pc :: byte) = pc"
    using v by (simp add: fits_byte_def unsigned_of_int take_bit_int_eq_self)
  have s5: "\<And>r. readBool (writeBool va @ r) = Ok va r" by simp
  have s6: "uint (word_of_int mss :: byte) = mss"
    using v by (simp add: fits_byte_def unsigned_of_int take_bit_int_eq_self)
  have s7: "\<And>r. readCode order (writeCode order ?p @ r) = Ok cd r"
    using v readCode_writeCode[of ?p order] by simp
  have s8: "\<And>r. readConstants order ws (writeConstants order ws ?p @ r) = Ok ks r"
    using v readConstants_writeConstants[of ?p ws order] by simp
  have s9: "\<And>r. readUpValues order (writeUpvalues order ?p @ r)
              = Ok (map (\<lambda>u. u\<lparr>uv_name := []\<rparr>) uvs) r"
    using v readUpValues_writeUpvalues[of ?p ws order] by simp
  have child: "\<And>q r. q \<in> set ps \<Longrightarrow>
                 readFunction k order ws (dumpFunction order ws q @ r) = Ok q r"
  proof -
    fix q r assume q: "q \<in> set ps"
    then have "valid_prototype ws q" using v by (auto simp: list_all_iff)
    moreover have "proto_depth q \<le> k"
      using q k foldr_max_ge[of "proto_depth q" "map proto_depth ps"] by auto
    ultimately show "readFunction k order ws (dumpFunction order ws q @ r) = Ok q r"
      using q by (intro Prototype.IH) auto
  qed
  have s10: "\<And>r. rbind (readInt order) (\<lambda>n.
                 if n = 0 then rret []
                 else if n < 0 then rfail errPanic
                 else read_n (nat n) (readFunction k order ws))
               (writeInt order (int (length ps)) @ concat (map (dumpFunction order ws) ps) @ r)
             = Ok ps r"
    using v child by (intro read_counted_list) auto
  have s11: "\<And>r. readDebug53 order ws (map (\<lambda>u. u\<lparr>uv_name := []\<rparr>) uvs)
               (writeDebug53 order ws ?p @ r) = Ok (li, lvs, uvs) r"
    using v readDebug53_writeDebug53[of ?p ws order] by simp
  have rb: "\<And>b r. readByte (writeByte b @ r) = Ok b r" by (simp add: writeByte_def)
  have vb: "\<And>r. readByte (writeBool va @ r) = Ok (if va then 1 else 0) r"
    by (simp add: writeBool_def writeByte_def)
  show ?case
    unfolding fuel readFunction.simps dumpFunction.simps Let_def append_assoc
    apply (subst rbind_Ok[where r = "readString order ws", OF s1])
    apply (subst rbind_Ok[where r = "readInt order", OF s2])
    apply (subst rbind_Ok[where r = "readInt order", OF s3])
    apply (subst rbind_Ok[where r = readByte, OF rb])
    apply (subst rbind_Ok[where r = readByte, OF vb])
    apply (subst rbind_Ok[where r = readByte, OF rb])
    apply (subst rbind_Ok[where r = "readCode order", OF s7])
    apply (subst rbind_Ok[where r = "readConstants order ws", OF s8])
    apply (subst rbind_Ok[where r = "readUpValues order", OF s9])
    apply (subst rbind_Ok[where r = "rbind (readInt order) (\<lambda>n.
                 if n = 0 then rret []
                 else if n < 0 then rfail errPanic
                 else read_n (nat n) (readFunction k order ws))", OF s10])
    apply (subst rbind_Ok[where r = "readDebug53 order ws (map (\<lambda>u. u\<lparr>uv_name := []\<rparr>) uvs)", OF s11])
    apply (simp add: rret_def s4 s6)
    done
qed

definition size_t_bytes :: "wordsize \<Rightarrow> nat" where
  "size_t_bytes ws = (case ws of W64 \<Rightarrow> 8 | W32 \<Rightarrow> 4)"

text \<open>
  Claim C3. A string of \<open>n\<close> bytes is written as the single byte \<open>0x00\<close> when \<open>n = 0\<close>; as the
  byte \<open>n + 1\<close> followed by the \<open>n\<close> bytes when \<open>n + 1 < 255\<close>; and as \<open>0xFF\<close>, the
  \<^verbatim>\<open>size_t\<close> value \<open>n + 1\<close> and the \<open>n\<close> bytes otherwise. Nothing follows the \<open>n\<close> bytes, and
  \<open>readString\<close> on the written bytes returns the string and leaves what came after them.
\<close>

theorem writeString_readString:
  assumes "length s < host_max_int ws"
  shows "(length s = 0 \<longrightarrow> writeString order ws s = [0x00])
       \<and> (0 < length s \<and> length s + 1 < 255
            \<longrightarrow> writeString order ws s = word_of_nat (length s + 1) # s)
       \<and> (255 \<le> length s + 1
            \<longrightarrow> writeString order ws s
                  = 0xFF # put_uint order (size_t_bytes ws) (length s + 1) @ s)
       \<and> readString order ws (writeString order ws s @ rest) = Ok s rest"
proof -
  have "255 \<le> length s + 1
          \<Longrightarrow> writeString order ws s = 0xFF # put_uint order (size_t_bytes ws) (length s + 1) @ s"
    using assms writeString_long[of s ws order] by (simp add: size_t_bytes_def)
  then show ?thesis
    using assms by (auto simp: writeString_empty writeString_short readString_writeString)
qed

theorem writeString_readString_witness:
  "length ([] :: byte list) < host_max_int W64
   \<and> writeString LittleEndian W64 [] = [0x00]
   \<and> length ([0x4C, 0x75, 0x61] :: byte list) < host_max_int W64
   \<and> writeString LittleEndian W64 [0x4C, 0x75, 0x61] = [4, 0x4C, 0x75, 0x61]
   \<and> length (replicate 254 (0x61 :: byte)) < host_max_int W32
   \<and> writeString BigEndian W32 (replicate 254 0x61) = 0xFF # [0, 0, 0, 0xFF] @ replicate 254 0x61
   \<and> readString BigEndian W32 (writeString BigEndian W32 (replicate 254 0x61) @ [7])
         = Ok (replicate 254 0x61) [7]"
proof -
  have h1: "length ([] :: byte list) < host_max_int W64" by (simp add: host_max_int_def)
  have h2: "length ([0x4C, 0x75, 0x61] :: byte list) < host_max_int W64"
    by (simp add: host_max_int_def)
  have h3: "length (replicate 254 (0x61 :: byte)) < host_max_int W32"
    by (simp add: host_max_int_def)
  have p: "put_uint BigEndian 4 255 = [0, 0, 0, 0xFF]"
    by code_simp
  have a: "writeString LittleEndian W64 [] = [0x00]"
    using writeString_readString[OF h1, of LittleEndian "[]"] by simp
  have b: "writeString LittleEndian W64 [0x4C, 0x75, 0x61] = [4, 0x4C, 0x75, 0x61]"
    using writeString_readString[OF h2, of LittleEndian "[]"] by simp
  note t = writeString_readString[OF h3, of BigEndian "[7]"]
  from t have "255 \<le> length (replicate 254 (0x61 :: byte)) + 1
          \<longrightarrow> writeString BigEndian W32 (replicate 254 0x61)
                = 0xFF # put_uint BigEndian (size_t_bytes W32)
                          (length (replicate 254 (0x61 :: byte)) + 1) @ replicate 254 0x61"
    by blast
  then have c: "writeString BigEndian W32 (replicate 254 0x61)
                  = 0xFF # [0, 0, 0, 0xFF] @ replicate 254 0x61"
    using p by (simp add: size_t_bytes_def)
  from t have d: "readString BigEndian W32 (writeString BigEndian W32 (replicate 254 0x61) @ [7])
                    = Ok (replicate 254 0x61) [7]"
    by blast
  show ?thesis
    using a b c d h1 h2 h3 by blast
qed

section \<open>The host's float64 and its conversions\<close>

text \<open>
  A Go \<^verbatim>\<open>float64\<close> is an IEEE-754 binary64 value, modelled by its 64 bits: a sign bit, eleven
  exponent bits and 52 fraction bits. \<open>f64_val\<close> reads the bits as NaN, an infinity, or the
  rational number they denote (both zeros denote 0). Go's comparisons \<^verbatim>\<open><\<close>, \<^verbatim>\<open>>=\<close>,
  \<^verbatim>\<open>==\<close> compare these values and are false when an operand is NaN.

  \<^verbatim>\<open>int64(f)\<close> truncates towards zero when the result fits; otherwise (NaN, infinities, out of
  range) the language leaves the result to the implementation, so it is the parameter
  \<open>oor\<close> of every function that converts. \<^verbatim>\<open>float64(i)\<close> rounds to the nearest
  representable number, ties to even (\<open>f64_of_int\<close>).
\<close>

type_synonym float64 = "64 word"

definition f64_sign :: "float64 \<Rightarrow> bool" where
  "f64_sign w = (2 ^ 63 \<le> unat w)"

definition f64_exp :: "float64 \<Rightarrow> nat" where
  "f64_exp w = (unat w div 2 ^ 52) mod 2048"

definition f64_frac :: "float64 \<Rightarrow> nat" where
  "f64_frac w = unat w mod 2 ^ 52"

datatype fval = NaN | PosInf | NegInf | Finite rat

definition f64_val :: "float64 \<Rightarrow> fval" where
  "f64_val w =
     (if f64_exp w = 2047
      then (if f64_frac w \<noteq> 0 then NaN else if f64_sign w then NegInf else PosInf)
      else
        let m = (if f64_exp w = 0 then f64_frac w else 2 ^ 52 + f64_frac w);
            e = (if f64_exp w = 0 then - 1074 else int (f64_exp w) - 1075);
            q = of_nat m * 2 powi e
        in Finite (if f64_sign w then - q else q))"

fun fval_lt :: "fval \<Rightarrow> fval \<Rightarrow> bool" where
  "fval_lt NaN _ = False"
| "fval_lt _ NaN = False"
| "fval_lt (Finite x) (Finite y) = (x < y)"
| "fval_lt NegInf NegInf = False"
| "fval_lt NegInf _ = True"
| "fval_lt PosInf _ = False"
| "fval_lt (Finite x) PosInf = True"
| "fval_lt (Finite x) NegInf = False"

fun fval_eq :: "fval \<Rightarrow> fval \<Rightarrow> bool" where
  "fval_eq (Finite x) (Finite y) = (x = y)"
| "fval_eq PosInf PosInf = True"
| "fval_eq NegInf NegInf = True"
| "fval_eq _ _ = False"

definition f64_lt :: "float64 \<Rightarrow> float64 \<Rightarrow> bool" where
  "f64_lt a b = fval_lt (f64_val a) (f64_val b)"

definition f64_eq :: "float64 \<Rightarrow> float64 \<Rightarrow> bool" where
  "f64_eq a b = fval_eq (f64_val a) (f64_val b)"

definition f64_gt :: "float64 \<Rightarrow> float64 \<Rightarrow> bool" where
  "f64_gt a b = f64_lt b a"

definition f64_ge :: "float64 \<Rightarrow> float64 \<Rightarrow> bool" where
  "f64_ge a b = (f64_lt b a \<or> f64_eq a b)"

definition trunc_rat :: "rat \<Rightarrow> int" where
  "trunc_rat q = (if 0 \<le> q then \<lfloor>q\<rfloor> else \<lceil>q\<rceil>)"

definition go_int64 :: "(float64 \<Rightarrow> 64 word) \<Rightarrow> float64 \<Rightarrow> 64 word" where
  "go_int64 oor f =
     (case f64_val f of
        Finite q \<Rightarrow>
          (let t = trunc_rat q
           in if - (2 ^ 63) \<le> t \<and> t < 2 ^ 63 then word_of_int t else oor f)
      | _ \<Rightarrow> oor f)"

function bit_len :: "nat \<Rightarrow> nat" where
  "bit_len n = (if n = 0 then 0 else Suc (bit_len (n div 2)))"
  by pat_completeness auto
termination by (relation "measure id") auto

declare bit_len.simps [simp del]

definition f64_make :: "bool \<Rightarrow> nat \<Rightarrow> nat \<Rightarrow> float64" where
  "f64_make s E F = word_of_nat ((if s then 2 ^ 63 else 0) + E * 2 ^ 52 + F)"

definition round_even :: "nat \<Rightarrow> nat \<Rightarrow> nat" where
  "round_even n k =
     (let q = n div 2 ^ k; r = n mod 2 ^ k
      in if 2 ^ k < 2 * r \<or> (2 * r = 2 ^ k \<and> odd q) then q + 1 else q)"

definition f64_of_int :: "int \<Rightarrow> float64" where
  "f64_of_int i =
     (if i = 0 then 0
      else
        let n = nat \<bar>i\<bar>; L = bit_len n in
        if L \<le> 53 then f64_make (i < 0) (L + 1022) (n * 2 ^ (53 - L) - 2 ^ 52)
        else
          let m = round_even n (L - 53) in
          if m = 2 ^ 53 then f64_make (i < 0) (L + 1023) 0
          else f64_make (i < 0) (L + 1022) (m - 2 ^ 52))"

definition float64_of_int64 :: "64 word \<Rightarrow> float64" where
  "float64_of_int64 i = f64_of_int (sint i)"

text \<open>types.go: \<^verbatim>\<open>const pow2_63Float = float64(1 << 63)\<close>; the constant \<^verbatim>\<open>-pow2_63Float\<close>.\<close>

definition pow2_63Float :: float64 where
  "pow2_63Float = f64_of_int (2 ^ 63)"

definition neg_pow2_63Float :: float64 where
  "neg_pow2_63Float = f64_of_int (- (2 ^ 63))"


subsection \<open>Values and integer conversion (types.go)\<close>

text \<open>
  \<^verbatim>\<open>type value interface{}\<close>: the dynamic types the functions below distinguish; tables,
  closures and userdata are \<open>VOther\<close>.
\<close>

datatype lua_value =
    VNil
  | VBool bool
  | VInt "64 word"
  | VFloat float64
  | VString gostring
  | VOther

definition floatToInteger :: "(float64 \<Rightarrow> 64 word) \<Rightarrow> float64 \<Rightarrow> 64 word \<times> bool" where
  "floatToInteger oor f =
     (if f64_ge f pow2_63Float \<or> f64_lt f neg_pow2_63Float then (0, False)
      else
        let i = go_int64 oor f in
        if f64_eq (float64_of_int64 i) f then (i, True) else (0, False))"

fun toInteger :: "(float64 \<Rightarrow> 64 word) \<Rightarrow> lua_value \<Rightarrow> 64 word \<times> bool" where
  "toInteger oor (VInt n) = (n, True)"
| "toInteger oor (VFloat n) =
     (if f64_ge n pow2_63Float \<or> f64_lt n neg_pow2_63Float then (0, False)
      else
        let i = go_int64 oor n in
        if f64_eq (float64_of_int64 i) n then (i, True) else (0, False))"
| "toInteger oor _ = (0, False)"

text \<open>
  Modelled from the spec: the interpreter's bitwise instructions are not among the sources.
  ``A float operand must be losslessly integral or the op fails with "number has no integer
  representation".''
\<close>

definition bitwiseFloatOperand :: "(float64 \<Rightarrow> 64 word) \<Rightarrow> float64 \<Rightarrow> string + 64 word" where
  "bitwiseFloatOperand oor f =
     (case floatToInteger oor f of
        (i, True) \<Rightarrow> Inr i
      | (_, False) \<Rightarrow> Inl ''number has no integer representation'')"

subsection \<open>Properties of the float model\<close>

lemma bit_len_0 [simp]: "bit_len 0 = 0"
  by (simp add: bit_len.simps)

lemma bit_len_pos: "0 < n \<Longrightarrow> bit_len n = Suc (bit_len (n div 2))"
  by (subst bit_len.simps) simp

lemma bit_len_upper: "n < 2 ^ bit_len n"
proof (induction n rule: bit_len.induct)
  case (1 n)
  show ?case
  proof (cases "n = 0")
    case True
    then show ?thesis by simp
  next
    case False
    then have "n div 2 < 2 ^ bit_len (n div 2)" using 1 by simp
    then have "n < 2 * 2 ^ bit_len (n div 2)" by linarith
    then show ?thesis using False by (simp add: bit_len_pos)
  qed
qed

lemma bit_len_lower: "0 < n \<Longrightarrow> 2 ^ (bit_len n - 1) \<le> n"
proof (induction n rule: bit_len.induct)
  case (1 n)
  show ?case
  proof (cases "n div 2 = 0")
    case True
    with 1 have "n = 1" by (metis One_nat_def div_less_iff_less_mult less_2_cases_iff mult.commute mult_2_right nat_1_add_1 not_gr_zero zero_less_numeral div_eq_0_iff)
    then show ?thesis by (simp add: bit_len_pos)
  next
    case False
    then have "2 ^ (bit_len (n div 2) - 1) \<le> n div 2" using 1 by simp
    moreover have "bit_len (n div 2) = Suc (bit_len (n div 2) - 1)"
      using False by (simp add: bit_len_pos)
    ultimately have "2 ^ bit_len (n div 2) \<le> 2 * (n div 2)"
      by (metis power_Suc mult_le_mono2)
    then have "2 ^ bit_len (n div 2) \<le> n" by linarith
    then show ?thesis using 1 by (simp add: bit_len_pos)
  qed
qed

lemma bit_len_le: "n < 2 ^ j \<Longrightarrow> bit_len n \<le> j"
proof (rule ccontr)
  assume n: "n < 2 ^ j" and "\<not> bit_len n \<le> j"
  then have j: "j \<le> bit_len n - 1" by simp
  then have "0 < n" using \<open>\<not> bit_len n \<le> j\<close> by (cases "n = 0") auto
  then have "2 ^ (bit_len n - 1) \<le> n" by (rule bit_len_lower)
  moreover have "(2::nat) ^ j \<le> 2 ^ (bit_len n - 1)" using j by (intro power_increasing) auto
  ultimately show False using n by linarith
qed

lemma div_mod_decomp:
  fixes a c F :: nat
  assumes "F < c"
  shows "(a * c + F) div c = a" "(a * c + F) mod c = F"
  using assms by auto

lemma f64_make_unat:
  assumes "E < 2048" "F < 2 ^ 52"
  shows "unat (f64_make s E F) = ((if s then 2048 else 0) + E) * 2 ^ 52 + F"
proof -
  define x where "x = (if s then 2 ^ 63 else 0) + E * 2 ^ 52 + F"
  have xe: "x = ((if s then 2048 else 0) + E) * 2 ^ 52 + F"
    by (simp add: x_def algebra_simps)
  have "E * 2 ^ 52 + F < 2 ^ 63" using assms by simp
  then have "x < 2 ^ 64" by (simp add: x_def)
  moreover have "unat (word_of_nat x :: 64 word) = x mod 2 ^ 64"
    using unat_of_nat[where 'a=64, of x] by simp
  ultimately have "unat (word_of_nat x :: 64 word) = x" by simp
  then show ?thesis unfolding f64_make_def x_def[symmetric] xe[symmetric] .
qed

lemma f64_make_fields:
  assumes "E < 2048" "F < 2 ^ 52"
  shows "f64_sign (f64_make s E F) = s" "f64_exp (f64_make s E F) = E"
    and "f64_frac (f64_make s E F) = F"
proof -
  note u = f64_make_unat[OF assms, of s]
  have lt: "E * 2 ^ 52 + F < 2 ^ 63" using assms by simp
  show "f64_sign (f64_make s E F) = s"
    unfolding f64_sign_def u using lt by (simp add: algebra_simps)
  show "f64_exp (f64_make s E F) = E"
    unfolding f64_exp_def u div_mod_decomp(1)[OF assms(2)] using assms by simp
  show "f64_frac (f64_make s E F) = F"
    unfolding f64_frac_def u by (rule div_mod_decomp(2)[OF assms(2)])
qed

lemma f64_val_make:
  assumes "0 < E" "E < 2047" "F < 2 ^ 52"
  shows "f64_val (f64_make s E F)
           = Finite ((if s then - 1 else 1) * (of_nat (2 ^ 52 + F) * 2 powi (int E - 1075)))"
  using assms f64_make_fields[of E F s] by (simp add: f64_val_def)

lemma powi_neg_nat: "(2::rat) powi (- int k) = 1 / 2 ^ k"
  by (simp add: power_int_minus_divide)

lemma f64_of_int_exact:
  assumes n: "n = m * 2 ^ e" "0 < n" "m < 2 ^ 53" "bit_len n \<le> 1000"
    and i: "i = (if s then - int n else int n)"
  shows "f64_val (f64_of_int i) = Finite (of_int i)"
proof -
  define L where "L = bit_len n"
  have Lpos: "0 < L" using n(2) by (simp add: L_def bit_len_pos)
  have up: "n < 2 ^ L" unfolding L_def by (rule bit_len_upper)
  have lo: "2 ^ (L - 1) \<le> n" unfolding L_def using n(2) by (rule bit_len_lower)
  have i0: "i \<noteq> 0" "nat \<bar>i\<bar> = n" "(i < 0) = s" using i n(2) by auto
  have sgn: "(of_int i :: rat) = (if s then - 1 else 1) * of_nat n" using i by simp
  show ?thesis
  proof (cases "L \<le> 53")
    case True
    define M where "M = n * 2 ^ (53 - L)"
    have "2 ^ (L - 1) * 2 ^ (53 - L) \<le> M" unfolding M_def using lo by simp
    moreover have "(2::nat) ^ (L - 1) * 2 ^ (53 - L) = 2 ^ 52"
      using True Lpos by (simp add: power_add[symmetric])
    ultimately have Mlo: "2 ^ 52 \<le> M" by simp
    have "M < 2 ^ L * 2 ^ (53 - L)" unfolding M_def using up by simp
    moreover have "(2::nat) ^ L * 2 ^ (53 - L) = 2 ^ 53"
      using True by (simp add: power_add[symmetric])
    ultimately have Mhi: "M < 2 ^ 53" by simp
    have F: "M - 2 ^ 52 < 2 ^ 52" "2 ^ 52 + (M - 2 ^ 52) = M" using Mlo Mhi by auto
    have E: "0 < L + 1022" "L + 1022 < 2047" using True by auto
    have v: "f64_val (f64_make s (L + 1022) (M - 2 ^ 52))
               = Finite ((if s then - 1 else 1) * (of_nat M * 2 powi (int (L + 1022) - 1075)))"
      using f64_val_make[OF E F(1), of s] F(2) by simp
    have "int (L + 1022) - 1075 = - int (53 - L)" using True by simp
    then have "(2::rat) powi (int (L + 1022) - 1075) = 1 / 2 ^ (53 - L)"
      by (simp only: powi_neg_nat)
    then have "(of_nat M :: rat) * 2 powi (int (L + 1022) - 1075) = of_nat n"
      by (simp add: M_def)
    then have "f64_val (f64_make s (L + 1022) (M - 2 ^ 52)) = Finite (of_int i)"
      using v sgn by simp
    then show ?thesis
      using True i0 by (simp add: f64_of_int_def L_def[symmetric] M_def Let_def)
  next
    case False
    define k where "k = L - 53"
    have L: "L = k + 53" using False by (simp add: k_def)
    have "n < 2 ^ (53 + e)"
    proof -
      have "m * 2 ^ e < 2 ^ 53 * 2 ^ e" using n(3) by simp
      then show ?thesis using n(1) by (simp add: power_add)
    qed
    then have "L \<le> 53 + e" unfolding L_def by (rule bit_len_le)
    then have "k \<le> e" using L by simp
    then have "(2::nat) ^ k dvd 2 ^ e" by (rule le_imp_power_dvd)
    then have dv: "2 ^ k dvd n" using n(1) by simp
    define q where "q = n div 2 ^ k"
    have nq: "n = q * 2 ^ k" using dv by (simp add: q_def)
    have r0: "n mod 2 ^ k = 0" using dv by simp
    have re: "round_even n k = q"
      by (simp add: round_even_def r0 q_def Let_def)
    have qhi: "q < 2 ^ 53"
    proof -
      have "q * 2 ^ k < 2 ^ 53 * 2 ^ k" using up nq L by (simp add: power_add)
      then show ?thesis by simp
    qed
    have qlo: "2 ^ 52 \<le> q"
    proof -
      have "2 ^ 52 * 2 ^ k \<le> q * 2 ^ k" using lo nq L by (simp add: power_add)
      then show ?thesis by simp
    qed
    have F: "q - 2 ^ 52 < 2 ^ 52" "2 ^ 52 + (q - 2 ^ 52) = q" using qlo qhi by auto
    have E: "0 < L + 1022" "L + 1022 < 2047" using n(4) by (auto simp: L_def)
    have v: "f64_val (f64_make s (L + 1022) (q - 2 ^ 52))
               = Finite ((if s then - 1 else 1) * (of_nat q * 2 powi (int (L + 1022) - 1075)))"
      using f64_val_make[OF E F(1), of s] F(2) by simp
    have "int (L + 1022) - 1075 = int k" using L by simp
    then have "(2::rat) powi (int (L + 1022) - 1075) = 2 ^ k" by simp
    then have "(of_nat q :: rat) * 2 powi (int (L + 1022) - 1075) = of_nat n"
      using nq by simp
    then have "f64_val (f64_make s (L + 1022) (q - 2 ^ 52)) = Finite (of_int i)"
      using v sgn by simp
    then show ?thesis
      using False i0 qhi by (simp add: f64_of_int_def L_def[symmetric] k_def[symmetric] re Let_def)
  qed
qed

lemma f64_frac_lt: "f64_frac w < 2 ^ 52"
  by (simp add: f64_frac_def)

lemma f64_val_Finite_decomp:
  assumes "f64_val f = Finite q"
  shows "\<exists>m e. m < 2 ^ 53 \<and> \<bar>q\<bar> = of_nat m * 2 powi e"
proof -
  define m where "m = (if f64_exp f = 0 then f64_frac f else 2 ^ 52 + f64_frac f)"
  define e where "e = (if f64_exp f = 0 then - 1074 else int (f64_exp f) - 1075)"
  have m: "m < 2 ^ 53" using f64_frac_lt[of f] by (simp add: m_def)
  have nn: "(0::rat) \<le> of_nat m * 2 powi e" by (simp add: zero_le_power_int)
  have "q = (if f64_sign f then - (of_nat m * 2 powi e) else of_nat m * 2 powi e)"
    using assms by (simp add: f64_val_def m_def e_def Let_def split: if_splits)
  then have "\<bar>q\<bar> = of_nat m * 2 powi e" using nn by (simp split: if_splits)
  with m show ?thesis by blast
qed

lemma rat_scaled_cases:
  fixes q :: rat
  assumes "\<bar>q\<bar> = of_nat m * 2 powi e" "m < 2 ^ 53"
  shows "(\<exists>j. \<bar>q\<bar> = of_nat (m * 2 ^ j)) \<or> \<bar>q\<bar> \<le> of_nat m"
proof (cases "0 \<le> e")
  case True
  then have "(2::rat) powi e = 2 ^ nat e" by (simp add: power_int_def)
  then have "\<bar>q\<bar> = of_nat (m * 2 ^ nat e)" using assms(1) by simp
  then show ?thesis by blast
next
  case False
  then have "(2::rat) powi e = 1 / 2 ^ nat (- e)"
    using powi_neg_nat[of "nat (- e)"] by simp
  then have "\<bar>q\<bar> = of_nat m / 2 ^ nat (- e)" using assms(1) by simp
  moreover have "(of_nat m :: rat) / 2 ^ nat (- e) \<le> of_nat m"
  proof -
    have "(of_nat m :: rat) * 1 \<le> of_nat m * 2 ^ nat (- e)"
      by (intro mult_left_mono) (auto simp: one_le_power)
    then show ?thesis by (simp add: divide_le_eq)
  qed
  ultimately show ?thesis by simp
qed

lemma trunc_rat_of_int [simp]: "trunc_rat (of_int k) = k"
  by (simp add: trunc_rat_def)

lemma trunc_rat_abs: "\<bar>of_int (trunc_rat q) :: rat\<bar> \<le> \<bar>q\<bar>"
  unfolding trunc_rat_def by (auto; linarith)

lemma trunc_rat_range:
  assumes "- (2 ^ 63) \<le> q" "q < 2 ^ 63"
  shows "- (2 ^ 63) \<le> trunc_rat q" "trunc_rat q < 2 ^ 63"
proof -
  show "- (2 ^ 63) \<le> trunc_rat q"
    unfolding trunc_rat_def using assms(1)
    by (auto; linarith)
  show "trunc_rat q < 2 ^ 63"
    unfolding trunc_rat_def using assms(2)
    by (auto; linarith)
qed


lemma f64_of_int_small:
  assumes "\<bar>t\<bar> < 2 ^ 53"
  shows "f64_val (f64_of_int t) = Finite (of_int t)"
proof (cases "t = 0")
  case True
  then show ?thesis
    by (simp add: f64_of_int_def f64_val_def f64_exp_def f64_frac_def f64_sign_def)
next
  case False
  define n where "n = nat \<bar>t\<bar>"
  have n: "n = n * 2 ^ 0" "0 < n" "n < 2 ^ 53" using assms False by (auto simp: n_def)
  have "bit_len n \<le> 53" using n(3) by (rule bit_len_le)
  then have b: "bit_len n \<le> 1000" by simp
  have "t = (if t < 0 then - int n else int n)" by (simp add: n_def)
  then show ?thesis using f64_of_int_exact[OF n(1) n(2) n(3) b] by blast
qed

lemma f64_of_int_representable:
  assumes "f64_val f = Finite (of_int k)" "\<bar>k\<bar> \<le> 2 ^ 63"
  shows "f64_val (f64_of_int k) = Finite (of_int k)"
proof -
  obtain m e where me: "m < 2 ^ 53" "\<bar>of_int k :: rat\<bar> = of_nat m * 2 powi e"
    using f64_val_Finite_decomp[OF assms(1)] by blast
  from rat_scaled_cases[OF me(2) me(1)]
  show ?thesis
  proof
    assume "\<exists>j. \<bar>of_int k :: rat\<bar> = of_nat (m * 2 ^ j)"
    then obtain j where j: "\<bar>of_int k :: rat\<bar> = of_nat (m * 2 ^ j)" by blast
    have "(of_int \<bar>k\<bar> :: rat) = of_int (int (m * 2 ^ j))" using j by simp
    then have kj: "\<bar>k\<bar> = int (m * 2 ^ j)" by (simp only: of_int_eq_iff)
    show ?thesis
    proof (cases "k = 0")
      case True
      then show ?thesis using f64_of_int_small[of 0] by simp
    next
      case False
      define n where "n = nat \<bar>k\<bar>"
      have "n = nat (int (m * 2 ^ j))" unfolding n_def using kj by (simp only:)
      then have n1: "n = m * 2 ^ j" by (simp only: nat_int)
      have n2: "0 < n" using False by (simp add: n_def)
      note n = n1 n2
      have "n < 2 ^ 64" using assms(2) by (simp add: n_def)
      then have "bit_len n \<le> 64" by (rule bit_len_le)
      then have b: "bit_len n \<le> 1000" by simp
      have "k = (if k < 0 then - int n else int n)" by (simp add: n_def)
      then show ?thesis using f64_of_int_exact[OF n(1) n(2) me(1) b] by blast
    qed
  next
    assume "\<bar>of_int k :: rat\<bar> \<le> of_nat m"
    then have "(of_int \<bar>k\<bar> :: rat) \<le> of_int (int m)" by simp
    then have "\<bar>k\<bar> \<le> int m" by (simp only: of_int_le_iff)
    then have "\<bar>k\<bar> < 2 ^ 53" using me(1) by simp
    then show ?thesis by (rule f64_of_int_small)
  qed
qed

lemma f64_nonintegral_small:
  assumes "f64_val f = Finite q" "q \<notin> \<int>"
  shows "\<bar>q\<bar> < 2 ^ 53"
proof -
  obtain m e where me: "m < 2 ^ 53" "\<bar>q\<bar> = of_nat m * 2 powi e"
    using f64_val_Finite_decomp[OF assms(1)] by blast
  from rat_scaled_cases[OF me(2) me(1)]
  show ?thesis
  proof
    assume "\<exists>j. \<bar>q\<bar> = of_nat (m * 2 ^ j)"
    then have "\<bar>q\<bar> \<in> \<int>" by auto
    then have "q \<in> \<int>" by (cases "0 \<le> q") (auto simp: abs_if dest: Ints_minus)
    with assms(2) show ?thesis by simp
  next
    assume "\<bar>q\<bar> \<le> of_nat m"
    moreover have "(of_nat m :: rat) < 2 ^ 53" using me(1)
      by (metis of_nat_less_iff of_nat_numeral of_nat_power)
    ultimately show ?thesis by simp
  qed
qed

lemma pow2_63Float_val: "f64_val pow2_63Float = Finite (2 ^ 63)"
proof -
  have n: "(2::nat) ^ 63 = 1 * 2 ^ 63" "0 < (2::nat) ^ 63" "(1::nat) < 2 ^ 53" by simp_all
  have "(2::nat) ^ 63 < 2 ^ 64" by simp
  then have "bit_len (2 ^ 63) \<le> 64" by (rule bit_len_le)
  then have b: "bit_len (2 ^ 63) \<le> 1000" by simp
  have "(2::int) ^ 63 = (if False then - int (2 ^ 63) else int (2 ^ 63))" by simp
  from f64_of_int_exact[OF n b this] show ?thesis by (simp add: pow2_63Float_def)
qed

lemma neg_pow2_63Float_val: "f64_val neg_pow2_63Float = Finite (- (2 ^ 63))"
proof -
  have n: "(2::nat) ^ 63 = 1 * 2 ^ 63" "0 < (2::nat) ^ 63" "(1::nat) < 2 ^ 53" by simp_all
  have "(2::nat) ^ 63 < 2 ^ 64" by simp
  then have "bit_len (2 ^ 63) \<le> 64" by (rule bit_len_le)
  then have b: "bit_len (2 ^ 63) \<le> 1000" by simp
  have "- ((2::int) ^ 63) = (if True then - int (2 ^ 63) else int (2 ^ 63))" by simp
  from f64_of_int_exact[OF n b this] show ?thesis by (simp add: neg_pow2_63Float_def)
qed

lemma f64_ge_val:
  "f64_ge a b = (fval_lt (f64_val b) (f64_val a) \<or> fval_eq (f64_val a) (f64_val b))"
  by (simp add: f64_ge_def f64_lt_def f64_eq_def)

lemma floatToInteger_char:
  "floatToInteger oor f =
     (case f64_val f of
        Finite q \<Rightarrow>
          if q \<in> \<int> \<and> - (2 ^ 63) \<le> q \<and> q < 2 ^ 63 then (word_of_int \<lfloor>q\<rfloor>, True)
          else (0, False)
      | _ \<Rightarrow> (0, False))"
proof (cases "f64_val f")
  case NaN
  then show ?thesis
    by (simp add: floatToInteger_def f64_ge_val f64_lt_def f64_eq_def
        pow2_63Float_val neg_pow2_63Float_val Let_def)
next
  case PosInf
  then show ?thesis
    by (simp add: floatToInteger_def f64_ge_val f64_lt_def f64_eq_def
        pow2_63Float_val neg_pow2_63Float_val)
next
  case NegInf
  then show ?thesis
    by (simp add: floatToInteger_def f64_ge_val f64_lt_def f64_eq_def
        pow2_63Float_val neg_pow2_63Float_val)
next
  case (Finite q)
  show ?thesis
  proof (cases "- (2 ^ 63) \<le> q \<and> q < 2 ^ 63")
    case False
    then have "f64_ge f pow2_63Float \<or> f64_lt f neg_pow2_63Float"
      using Finite
      by (auto simp: f64_ge_val f64_lt_def pow2_63Float_val neg_pow2_63Float_val)
    then show ?thesis using Finite False by (auto simp: floatToInteger_def)
  next
    case True
    then have rng: "\<not> (f64_ge f pow2_63Float \<or> f64_lt f neg_pow2_63Float)"
      using Finite
      by (auto simp: f64_ge_val f64_lt_def pow2_63Float_val neg_pow2_63Float_val)
    define t where "t = trunc_rat q"
    have t: "- (2 ^ 63) \<le> t" "t < 2 ^ 63"
      unfolding t_def using True trunc_rat_range[of q] by auto
    have gi: "go_int64 oor f = word_of_int t"
      using Finite t by (simp add: go_int64_def t_def Let_def)
    have "sint (word_of_int t :: 64 word) = t"
      using t by (simp add: signed_of_int signed_take_bit_int_eq_self)
    then have conv: "float64_of_int64 (go_int64 oor f) = f64_of_int t"
      by (simp add: gi float64_of_int64_def)
    show ?thesis
    proof (cases "q \<in> \<int>")
      case int: True
      then obtain k where k: "q = of_int k" by (auto elim: Ints_cases)
      then have tk: "t = k" by (simp add: t_def)
      have "\<bar>k\<bar> \<le> 2 ^ 63" using t tk by simp
      then have "f64_val (f64_of_int k) = Finite (of_int k)"
        using Finite k f64_of_int_representable[of f k] by simp
      then have "f64_eq (float64_of_int64 (go_int64 oor f)) f"
        using Finite k tk by (simp add: conv f64_eq_def)
      then show ?thesis
        using rng Finite True int k tk gi by (simp add: floatToInteger_def Let_def)
    next
      case nint: False
      have "\<bar>q\<bar> < 2 ^ 53" using Finite nint by (rule f64_nonintegral_small)
      moreover have "\<bar>of_int t :: rat\<bar> \<le> \<bar>q\<bar>" unfolding t_def by (rule trunc_rat_abs)
      ultimately have "\<bar>of_int t :: rat\<bar> < 2 ^ 53" by simp
      then have "(of_int \<bar>t\<bar> :: rat) < of_int (2 ^ 53)" by simp
      then have "\<bar>t\<bar> < 2 ^ 53" by (simp only: of_int_less_iff)
      then have "f64_val (f64_of_int t) = Finite (of_int t)" by (rule f64_of_int_small)
      moreover have "(of_int t :: rat) \<noteq> q" using nint by auto
      ultimately have "\<not> f64_eq (float64_of_int64 (go_int64 oor f)) f"
        using Finite by (simp add: conv f64_eq_def)
      then show ?thesis
        using rng Finite nint by (simp add: floatToInteger_def Let_def)
    qed
  qed
qed

text \<open>
  Claim C6. A float operand converts exactly when it is losslessly integral:
  \<open>floatToInteger\<close> (and \<open>toInteger\<close> on a float, which is the same code) returns
  \<open>(i, true)\<close> if and only if the float is an integer \<open>k\<close> with \<open>-2^63 \<le> k < 2^63\<close>, and then
  \<open>i = k\<close> and \<open>float64(i)\<close> equals the operand; for every other float (non-integral, out of
  range, infinite, NaN) it returns \<open>(0, false)\<close> and the bitwise operation fails with
  ``number has no integer representation''.
\<close>

theorem toInteger_float_lossless:
  "(floatToInteger oor f = (i, True)
      \<longleftrightarrow> (\<exists>k. f64_val f = Finite (of_int k) \<and> - (2 ^ 63) \<le> k \<and> k < 2 ^ 63 \<and> i = word_of_int k))
   \<and> (floatToInteger oor f = (i, True) \<longrightarrow> f64_eq (float64_of_int64 i) f)
   \<and> (\<not> (\<exists>k. f64_val f = Finite (of_int k) \<and> - (2 ^ 63) \<le> k \<and> k < 2 ^ 63)
        \<longrightarrow> floatToInteger oor f = (0, False)
            \<and> bitwiseFloatOperand oor f = Inl ''number has no integer representation'')
   \<and> toInteger oor (VFloat f) = floatToInteger oor f"
proof -
  let ?P = "\<lambda>k. f64_val f = Finite (of_int k) \<and> - (2 ^ 63) \<le> k \<and> k < 2 ^ 63"
  have yes: "floatToInteger oor f = (word_of_int k, True)" if "?P k" for k
    using that by (simp add: floatToInteger_char)
  have no: "floatToInteger oor f = (0, False)" if "\<not> (\<exists>k. ?P k)"
  proof (cases "f64_val f")
    case (Finite q)
    have "\<not> (q \<in> \<int> \<and> - (2 ^ 63) \<le> q \<and> q < 2 ^ 63)"
    proof
      assume a: "q \<in> \<int> \<and> - (2 ^ 63) \<le> q \<and> q < 2 ^ 63"
      then obtain k where k: "q = of_int k" by (auto elim: Ints_cases)
      have "(of_int (- (2 ^ 63)) :: rat) \<le> of_int k" "(of_int k :: rat) < of_int (2 ^ 63)"
        using a k by simp_all
      then have "- (2 ^ 63) \<le> k" "k < 2 ^ 63" by (simp_all only: of_int_le_iff of_int_less_iff)
      with Finite k that show False by blast
    qed
    with Finite show ?thesis by (simp add: floatToInteger_char)
  qed (simp_all add: floatToInteger_char)
  have eq: "f64_eq (float64_of_int64 (word_of_int k)) f" if "?P k" for k
  proof -
    have "sint (word_of_int k :: 64 word) = k"
      using that by (simp add: signed_of_int signed_take_bit_int_eq_self)
    moreover have "\<bar>k\<bar> \<le> 2 ^ 63" using that by linarith
    then have "f64_val (f64_of_int k) = Finite (of_int k)"
      using that f64_of_int_representable[of f k] by blast
    ultimately show ?thesis using that by (simp add: float64_of_int64_def f64_eq_def)
  qed
  have iff: "floatToInteger oor f = (i, True) \<longleftrightarrow> (\<exists>k. ?P k \<and> i = word_of_int k)"
  proof
    assume r: "floatToInteger oor f = (i, True)"
    then have "\<exists>k. ?P k" using no by auto
    then obtain k where k: "?P k" by blast
    with yes r have "i = word_of_int k" by simp
    with k show "\<exists>k. ?P k \<and> i = word_of_int k" by blast
  next
    assume "\<exists>k. ?P k \<and> i = word_of_int k"
    then show "floatToInteger oor f = (i, True)" using yes by blast
  qed
  have c2: "floatToInteger oor f = (i, True) \<longrightarrow> f64_eq (float64_of_int64 i) f"
    using iff eq by blast
  have c3: "\<not> (\<exists>k. ?P k) \<longrightarrow> floatToInteger oor f = (0, False)
              \<and> bitwiseFloatOperand oor f = Inl ''number has no integer representation''"
    using no by (simp add: bitwiseFloatOperand_def)
  have c4: "toInteger oor (VFloat f) = floatToInteger oor f"
    by (simp add: floatToInteger_def)
  from iff c2 c3 c4 show ?thesis by blast
qed

theorem toInteger_float_lossless_witness:
  "floatToInteger (\<lambda>_. 0x8000000000000000) 0x4008000000000000 = (3, True)
   \<and> f64_eq (float64_of_int64 3) 0x4008000000000000
   \<and> floatToInteger (\<lambda>_. 0x8000000000000000) 0x400C000000000000 = (0, False)
   \<and> bitwiseFloatOperand (\<lambda>_. 0x8000000000000000) 0x400C000000000000
         = Inl ''number has no integer representation''"
proof -
  have v3: "f64_val 0x4008000000000000 = Finite (of_int 3)"
    by (simp add: f64_val_def f64_exp_def f64_frac_def f64_sign_def)
  have v35: "f64_val 0x400C000000000000 = Finite (7 / 2)"
    by (simp add: f64_val_def f64_exp_def f64_frac_def f64_sign_def power_int_minus_divide)
  have ex: "\<exists>k. f64_val 0x4008000000000000 = Finite (of_int k) \<and> - (2 ^ 63) \<le> k \<and> k < 2 ^ 63
              \<and> (3 :: 64 word) = word_of_int k"
    using v3 by (intro exI[of _ 3]) simp
  have nex: "\<not> (\<exists>k. f64_val 0x400C000000000000 = Finite (of_int k) \<and> - (2 ^ 63) \<le> k \<and> k < 2 ^ 63)"
  proof
    assume "\<exists>k. f64_val 0x400C000000000000 = Finite (of_int k) \<and> - (2 ^ 63) \<le> k \<and> k < 2 ^ 63"
    then obtain k :: int where "(of_int k :: rat) = 7 / 2" using v35 by auto
    then have "(of_int (2 * k) :: rat) = of_int 7" by simp
    then have "2 * k = 7" by (simp only: of_int_eq_iff)
    then show False by presburger
  qed
  note a = toInteger_float_lossless[of "\<lambda>_. 0x8000000000000000" "0x4008000000000000" 3]
  note b = toInteger_float_lossless[of "\<lambda>_. 0x8000000000000000" "0x400C000000000000" 0]
  from a ex have a1: "floatToInteger (\<lambda>_. 0x8000000000000000) 0x4008000000000000 = (3, True)"
    by blast
  with a have a2: "f64_eq (float64_of_int64 3) 0x4008000000000000" by blast
  from b nex have "floatToInteger (\<lambda>_. 0x8000000000000000) 0x400C000000000000 = (0, False)
     \<and> bitwiseFloatOperand (\<lambda>_. 0x8000000000000000) 0x400C000000000000
         = Inl ''number has no integer representation''"
    by blast
  with a1 a2 show ?thesis by blast
qed

subsection \<open>The chunk header (undump.go)\<close>

text \<open>
  Modelled from the spec: the constants \<^verbatim>\<open>Signature\<close>, \<^verbatim>\<open>VersionMajor\<close> and
  \<^verbatim>\<open>VersionMinor\<close> are declared outside the sources: ``4-byte signature \<^verbatim>\<open>\x1bLua\<close>;
  version byte \<^verbatim>\<open>0x53\<close>''.
\<close>

definition LuaSignature :: gostring where
  "LuaSignature = [0x1B, 0x4C, 0x75, 0x61]"

definition VersionMajor :: byte where "VersionMajor = 5"
definition VersionMinor :: byte where "VersionMinor = 3"

record header =
  Signature :: "byte list"
  Version :: byte
  Format :: byte
  Data :: "byte list"
  IntSize :: byte
  PointerSize :: byte
  InstructionSize :: byte
  IntegerSize :: byte
  NumberSize :: byte
  TestInt :: "64 word"
  TestNum :: float64

text \<open>
  \<^verbatim>\<open>init\<close> fills the native header. \<^verbatim>\<open>byte(1+^uintptr(0)>>32&1) * 4\<close> is 8 where
  \<^verbatim>\<open>uintptr\<close> has 64 bits and 4 where it has 32; instructions are 32-bit. The float
  \<^verbatim>\<open>370.5\<close> has the bits \<open>0x4077280000000000\<close>.
\<close>

definition native_header :: "wordsize \<Rightarrow> header" where
  "native_header ws =
     \<lparr>Signature = take 4 LuaSignature,
      Version = push_bit 4 VersionMajor OR VersionMinor,
      Format = 0,
      Data = [0x19, 0x93, 0x0D, 0x0A, 0x1A, 0x0A],
      IntSize = 4,
      PointerSize = (case ws of W64 \<Rightarrow> 8 | W32 \<Rightarrow> 4),
      InstructionSize = 4,
      IntegerSize = 8,
      NumberSize = 8,
      TestInt = 0x5678,
      TestNum = 0x4077280000000000\<rparr>"

text \<open>Go's \<^verbatim>\<open>==\<close> on the struct compares field by field, the float with the float's \<^verbatim>\<open>==\<close>.\<close>

definition header_eq :: "header \<Rightarrow> header \<Rightarrow> bool" where
  "header_eq h g =
     (Signature h = Signature g \<and> Version h = Version g \<and> Format h = Format g
      \<and> Data h = Data g \<and> IntSize h = IntSize g \<and> PointerSize h = PointerSize g
      \<and> InstructionSize h = InstructionSize g \<and> IntegerSize h = IntegerSize g
      \<and> NumberSize h = NumberSize g \<and> TestInt h = TestInt g
      \<and> f64_eq (TestNum h) (TestNum g))"

definition header_bytes :: "ByteOrder \<Rightarrow> header \<Rightarrow> byte list" where
  "header_bytes order h =
     Signature h @ [Version h, Format h] @ Data h
     @ [IntSize h, PointerSize h, InstructionSize h, IntegerSize h, NumberSize h]
     @ put_uint order 8 (unat (TestInt h)) @ put_uint order 8 (unat (TestNum h))"

definition parse_header :: "ByteOrder \<Rightarrow> byte list \<Rightarrow> header" where
  "parse_header order b =
     \<lparr>Signature = take 4 b,
      Version = b ! 4,
      Format = b ! 5,
      Data = take 6 (drop 6 b),
      IntSize = b ! 12,
      PointerSize = b ! 13,
      InstructionSize = b ! 14,
      IntegerSize = b ! 15,
      NumberSize = b ! 16,
      TestInt = word_of_nat (get_uint order (take 8 (drop 17 b))),
      TestNum = word_of_nat (get_uint order (take 8 (drop 25 b)))\<rparr>"

definition dumpHeader :: "ByteOrder \<Rightarrow> wordsize \<Rightarrow> byte list" where
  "dumpHeader order ws = header_bytes order (native_header ws)"

definition checkHeader :: "ByteOrder \<Rightarrow> wordsize \<Rightarrow> unit reader" where
  "checkHeader order ws =
     rbind (read_bytes 33) (\<lambda>b.
       let h = parse_header order b in
       if header_eq h (native_header ws) then rret ()
       else if Signature h \<noteq> LuaSignature then rfail errNotPrecompiledChunk
       else if Version h \<noteq> Version (native_header ws) \<or> Format h \<noteq> Format (native_header ws)
         then rfail errVersionMismatch
       else if Data h \<noteq> Data (native_header ws) then rfail errCorrupted
       else rfail errIncompatible)"

text \<open>\<^verbatim>\<open>dump\<close> and \<^verbatim>\<open>undump\<close>, up to the closure that wraps the prototype read.\<close>

definition dump :: "ByteOrder \<Rightarrow> wordsize \<Rightarrow> prototype \<Rightarrow> byte list" where
  "dump order ws p =
     dumpHeader order ws @ writeByte (word_of_nat (length (upValues p))) @ dumpFunction order ws p"

definition undump :: "nat \<Rightarrow> ByteOrder \<Rightarrow> wordsize \<Rightarrow> prototype reader" where
  "undump fuel order ws =
     rbind (checkHeader order ws) (\<lambda>_.
     rbind readByte (\<lambda>_.
       readFunction fuel order ws))"

lemma f64_unat_fields:
  "unat w = (if f64_sign w then 2 ^ 63 else 0) + f64_exp w * 2 ^ 52 + f64_frac w"
proof -
  define u where "u = unat w"
  define d where "d = u div 2 ^ 52"
  define r where "r = u mod 2 ^ 52"
  define s where "s = d div 2048"
  define x where "x = d mod 2048"
  have ub: "u < 2 ^ 64" unfolding u_def using unsigned_less[of w] by simp
  have e1: "u = d * 2 ^ 52 + r" by (simp add: d_def r_def)
  have e2: "d = s * 2048 + x" by (simp add: s_def x_def)
  have "s = u div 2 ^ 63" by (simp add: s_def d_def div_mult2_eq[symmetric])
  moreover have "u div 2 ^ 63 < 2" using ub by (simp add: less_mult_imp_div_less)
  ultimately have s2: "s < 2" by simp
  have e3: "s = (if 2 ^ 63 \<le> u then 1 else 0)"
  proof (cases "2 ^ 63 \<le> u")
    case True
    then have "0 < u div 2 ^ 63" by (simp add: div_greater_zero_iff)
    then show ?thesis using s2 True \<open>s = u div 2 ^ 63\<close> by simp
  next
    case False
    then show ?thesis using \<open>s = u div 2 ^ 63\<close> by simp
  qed
  have "u = (if 2 ^ 63 \<le> u then 2 ^ 63 else 0) + x * 2 ^ 52 + r"
    using e1 e2 e3 by (simp split: if_splits)
  then show ?thesis
    unfolding f64_sign_def f64_exp_def f64_frac_def u_def[symmetric] d_def[symmetric]
      r_def[symmetric] x_def[symmetric] .
qed

lemma f64_fields_inject:
  assumes "f64_sign a = f64_sign b" "f64_exp a = f64_exp b" "f64_frac a = f64_frac b"
  shows "a = b"
proof -
  have "unat a = unat b" using assms by (simp add: f64_unat_fields)
  then show ?thesis by (rule word_unat_eq_iff[THEN iffD2])
qed

definition example_header :: "byte list" where
  "example_header =
     [0x1B, 0x4C, 0x75, 0x61, 0x53, 0x00, 0x19, 0x93, 0x0D, 0x0A, 0x1A, 0x0A,
      4, 8, 4, 8, 8,
      0x78, 0x56, 0, 0, 0, 0, 0, 0,
      0, 0, 0, 0, 0, 0x28, 0x77, 0x40]"

lemma TestNum_val: "f64_val 0x4077280000000000 = Finite (741 / 2)"
  by (simp add: f64_val_def f64_exp_def f64_frac_def f64_sign_def power_int_minus_divide)

lemma TestNum_fields:
  "f64_sign 0x4077280000000000 = False" "f64_exp 0x4077280000000000 = 1031"
  "f64_frac 0x4077280000000000 = 741 * 2 ^ 43 - 2 ^ 52"
  by (simp_all add: f64_exp_def f64_frac_def f64_sign_def)

lemma powi_2_mono: "a \<le> b \<Longrightarrow> (2::rat) powi a \<le> 2 powi b"
  by (rule power_int_increasing) auto

lemma f64_val_FiniteD:
  assumes "f64_val f = Finite q"
  shows "f64_exp f \<noteq> 2047"
    and "q = (if f64_sign f
              then - (of_nat (if f64_exp f = 0 then f64_frac f else 2 ^ 52 + f64_frac f)
                      * 2 powi (if f64_exp f = 0 then - 1074 else int (f64_exp f) - 1075))
              else of_nat (if f64_exp f = 0 then f64_frac f else 2 ^ 52 + f64_frac f)
                      * 2 powi (if f64_exp f = 0 then - 1074 else int (f64_exp f) - 1075))"
  using assms by (simp_all add: f64_val_def Let_def split: if_splits)

lemma f64_eq_TestNum: "f64_eq w 0x4077280000000000 \<longleftrightarrow> w = 0x4077280000000000"
proof
  assume "w = 0x4077280000000000"
  then show "f64_eq w 0x4077280000000000" by (simp add: f64_eq_def TestNum_val)
next
  assume "f64_eq w 0x4077280000000000"
  then have v: "f64_val w = Finite (741 / 2)"
    by (cases "f64_val w") (simp_all add: f64_eq_def TestNum_val)
  define m where "m = (if f64_exp w = 0 then f64_frac w else 2 ^ 52 + f64_frac w)"
  define e where "e = (if f64_exp w = 0 then - 1074 else int (f64_exp w) - 1075)"
  have nn: "(0::rat) \<le> of_nat m * 2 powi e" by (simp add: zero_le_power_int)
  have fin: "f64_exp w \<noteq> 2047" using v by (rule f64_val_FiniteD(1))
  have q: "(741 / 2 :: rat) = (if f64_sign w then - (of_nat m * 2 powi e) else of_nat m * 2 powi e)"
    unfolding m_def e_def using v by (rule f64_val_FiniteD(2))
  have sg: "\<not> f64_sign w"
  proof
    assume "f64_sign w"
    with q have "(741 / 2 :: rat) = - (of_nat m * 2 powi e)" by simp
    with nn show False by linarith
  qed
  with q have me: "of_nat m * 2 powi e = (741 / 2 :: rat)" by simp
  have fr: "f64_frac w < 2 ^ 52" by (rule f64_frac_lt)
  have mhi: "(of_nat m :: rat) < 2 ^ 53"
  proof -
    have "m < 2 ^ 53" using fr by (simp add: m_def)
    then have "(of_nat m :: rat) < of_nat (2 ^ 53)" by (simp only: of_nat_less_iff)
    then show ?thesis by simp
  qed
  have p0: "(0::rat) < 2 powi e" by (simp add: zero_less_power_int)
  have ex: "f64_exp w \<noteq> 0"
  proof
    assume z: "f64_exp w = 0"
    then have "e \<le> - 53" by (simp add: e_def)
    then have "(2::rat) powi e \<le> 2 powi (- 53)" by (rule powi_2_mono)
    then have "of_nat m * 2 powi e \<le> of_nat m * (2::rat) powi (- 53)"
      by (intro mult_left_mono) auto
    also have "\<dots> \<le> 2 ^ 53 * (2::rat) powi (- 53)"
      using mhi by (intro mult_right_mono) (auto simp: zero_le_power_int)
    also have "\<dots> = 1" by (simp add: power_int_minus_divide)
    finally show False using me by simp
  qed
  then have mlo: "(2::rat) ^ 52 \<le> of_nat m"
  proof -
    have "2 ^ 52 \<le> m" using ex by (simp add: m_def)
    then have "(of_nat (2 ^ 52) :: rat) \<le> of_nat m" by (simp only: of_nat_le_iff)
    then show ?thesis by simp
  qed
  have e44: "e = - 44"
  proof (rule ccontr)
    assume "e \<noteq> - 44"
    then consider "- 43 \<le> e" | "e \<le> - 45" by linarith
    then show False
    proof cases
      case 1
      then have "(2::rat) powi (- 43) \<le> 2 powi e" by (rule powi_2_mono)
      then have "2 ^ 52 * (2::rat) powi (- 43) \<le> 2 ^ 52 * 2 powi e"
        by (intro mult_left_mono) auto
      also have "\<dots> \<le> of_nat m * 2 powi e"
        using mlo p0 by (intro mult_right_mono) auto
      finally have "2 ^ 52 * (2::rat) powi (- 43) \<le> 741 / 2" using me by simp
      then show False by (simp add: power_int_minus_divide)
    next
      case 2
      then have "(2::rat) powi e \<le> 2 powi (- 45)" by (rule powi_2_mono)
      then have "of_nat m * 2 powi e \<le> of_nat m * (2::rat) powi (- 45)"
        by (intro mult_left_mono) auto
      also have "\<dots> \<le> 2 ^ 53 * (2::rat) powi (- 45)"
        using mhi by (intro mult_right_mono) (auto simp: zero_le_power_int)
      finally have "(741 / 2 :: rat) \<le> 2 ^ 53 * (2::rat) powi (- 45)" using me by simp
      then show False by (simp add: power_int_minus_divide)
    qed
  qed
  then have E: "f64_exp w = 1031" using ex by (simp add: e_def split: if_splits)
  have "(of_nat m :: rat) = of_nat (741 * 2 ^ 43)"
    using me e44 by (simp add: power_int_minus_divide field_simps)
  then have "m = 741 * 2 ^ 43" by (simp only: of_nat_eq_iff)
  then have F: "f64_frac w = 741 * 2 ^ 43 - 2 ^ 52" using ex by (simp add: m_def)
  show "w = 0x4077280000000000"
    by (rule f64_fields_inject) (simp_all add: TestNum_fields sg E F)
qed

lemma header_eq_native: "header_eq h (native_header ws) \<longleftrightarrow> h = native_header ws"
  by (cases h) (auto simp: header_eq_def native_header_def f64_eq_TestNum)

lemma le_bytes_le_value: "le_bytes (length bs) (le_value bs) = bs"
proof (induction bs)
  case Nil
  then show ?case by simp
next
  case (Cons b bs)
  have "unat b < 256" using unsigned_less[of b] by simp
  then have "(unat b + 256 * le_value bs) div 256 = le_value bs" by simp
  moreover have "(word_of_nat (unat b + 256 * le_value bs) :: byte) = b"
  proof -
    have "unat (word_of_nat (unat b + 256 * le_value bs) :: byte)
            = (unat b + 256 * le_value bs) mod 256"
      using unat_of_nat[where 'a=8, of "unat b + 256 * le_value bs"] by simp
    also have "\<dots> = unat b" using \<open>unat b < 256\<close> by simp
    finally show ?thesis by (rule word_unat_eq_iff[THEN iffD2])
  qed
  ultimately show ?case using Cons.IH by simp
qed

lemma put_get_uint: "length bs = n \<Longrightarrow> put_uint order n (get_uint order bs) = bs"
proof (cases order)
  case LittleEndian
  assume "length bs = n"
  then show ?thesis using le_bytes_le_value[of bs] by (simp add: LittleEndian put_uint_def get_uint_def)
next
  case BigEndian
  assume "length bs = n"
  then have "le_bytes n (le_value (rev bs)) = rev bs" using le_bytes_le_value[of "rev bs"] by simp
  then show ?thesis by (simp add: BigEndian put_uint_def get_uint_def)
qed

lemma le_value_bound: "le_value bs < 256 ^ length bs"
proof (induction bs)
  case Nil
  then show ?case by simp
next
  case (Cons b bs)
  have "unat b < 256" using unsigned_less[of b] by simp
  moreover have "le_value bs + 1 \<le> 256 ^ length bs" using Cons.IH by simp
  then have "256 * (le_value bs + 1) \<le> 256 * 256 ^ length bs" by (rule mult_le_mono2)
  ultimately show ?case by simp
qed

lemma get_uint_bound: "get_uint order bs < 256 ^ length bs"
  using le_value_bound[of bs] le_value_bound[of "rev bs"]
  by (cases order) (auto simp: get_uint_def)

lemma put_word64_get:
  assumes "length bs = 8"
  shows "put_uint order 8 (unat (word_of_nat (get_uint order bs) :: 64 word)) = bs"
proof -
  have "get_uint order bs < 256 ^ 8" using get_uint_bound[of order bs] assms by simp
  then have "get_uint order bs < 2 ^ 64" by simp
  then have "unat (word_of_nat (get_uint order bs) :: 64 word) = get_uint order bs"
    using unat_of_nat[where 'a=64, of "get_uint order bs"] by simp
  then show ?thesis using assms by (simp add: put_get_uint)
qed

lemma get_word64_put:
  "(word_of_nat (get_uint order (put_uint order 8 (unat (w :: 64 word)))) :: 64 word) = w"
proof -
  have "unat w < 256 ^ 8" using unsigned_less[of w] by simp
  then have "get_uint order (put_uint order 8 (unat w)) = unat w" by (rule get_put_uint)
  then show ?thesis by simp
qed

lemma header_bytes_parse:
  assumes "length b = 33"
  shows "header_bytes order (parse_header order b) = b"
proof -
  have s: "b = take 4 b @ [b ! 4, b ! 5] @ take 6 (drop 6 b)
             @ [b ! 12, b ! 13, b ! 14, b ! 15, b ! 16]
             @ take 8 (drop 17 b) @ take 8 (drop 25 b)"
    using assms
    by (intro nth_equalityI) (auto simp: nth_append nth_Cons' min_def intro!: arg_cong[where f = "nth b"])
  have a: "put_uint order 8 (unat (word_of_nat (get_uint order (take 8 (drop 17 b))) :: 64 word))
             = take 8 (drop 17 b)"
    using assms by (intro put_word64_get) simp
  have c: "put_uint order 8 (unat (word_of_nat (get_uint order (take 8 (drop 25 b))) :: 64 word))
             = take 8 (drop 25 b)"
    using assms by (intro put_word64_get) simp
  show ?thesis
    unfolding header_bytes_def parse_header_def
    by (simp only: header.simps a c) (rule s[symmetric])
qed

lemma parse_header_bytes:
  assumes "length (Signature h) = 4" "length (Data h) = 6"
  shows "parse_header order (header_bytes order h) = h"
  using assms
  by (cases h) (simp add: parse_header_def header_bytes_def nth_append get_word64_put)

lemma length_header_bytes:
  "length (Signature h) = 4 \<Longrightarrow> length (Data h) = 6 \<Longrightarrow> length (header_bytes order h) = 33"
  by (simp add: header_bytes_def)

lemma native_header_lengths:
  "length (Signature (native_header ws)) = 4" "length (Data (native_header ws)) = 6"
  by (simp_all add: native_header_def LuaSignature_def)

lemma parse_eq_native_iff:
  assumes "length b = 33"
  shows "parse_header order b = native_header ws \<longleftrightarrow> b = dumpHeader order ws"
proof
  assume "parse_header order b = native_header ws"
  then have "header_bytes order (parse_header order b) = dumpHeader order ws"
    by (simp add: dumpHeader_def)
  then show "b = dumpHeader order ws" using assms by (simp add: header_bytes_parse)
next
  assume "b = dumpHeader order ws"
  then show "parse_header order b = native_header ws"
    by (simp add: dumpHeader_def parse_header_bytes native_header_lengths)
qed

lemma checkHeader_unfold:
  assumes "33 \<le> length bs"
  shows "checkHeader order ws bs =
     (let h = parse_header order (take 33 bs) in
       if h = native_header ws then Ok () (drop 33 bs)
       else if Signature h \<noteq> LuaSignature then Err errNotPrecompiledChunk
       else if Version h \<noteq> Version (native_header ws) \<or> Format h \<noteq> Format (native_header ws)
         then Err errVersionMismatch
       else if Data h \<noteq> Data (native_header ws) then Err errCorrupted
       else Err errIncompatible)"
proof -
  have "bs \<noteq> []" using assms by auto
  then have "read_bytes 33 bs = Ok (take 33 bs) (drop 33 bs)"
    using assms by (simp add: read_bytes_def)
  then show ?thesis
    by (simp add: checkHeader_def rbind_def rret_def rfail_def Let_def header_eq_native)
qed

lemma checkHeader_short:
  assumes "length bs < 33"
  shows "checkHeader order ws bs = Err (if bs = [] then errEOF else errUnexpectedEOF)"
  using assms by (simp add: checkHeader_def rbind_def read_bytes_def)

text \<open>
  Claim C8. When the 33 header bytes can be read, \<open>checkHeader\<close> succeeds if and only if the
  header read equals the native one, which is the case exactly when the bytes are those
  \<open>dumpHeader\<close> writes. Otherwise the error names the first field group that differs: not a
  precompiled chunk exactly when the signature differs; else version mismatch when the version
  or format byte differs; else corrupted when the data-check string differs; else
  incompatible (a size field or a test value differs).
\<close>

theorem checkHeader_errors:
  assumes "33 \<le> length bs"
  shows "let h = parse_header order (take 33 bs); N = native_header ws in
      (checkHeader order ws bs = Ok () (drop 33 bs) \<longleftrightarrow> h = N)
    \<and> (h = N \<longleftrightarrow> take 33 bs = dumpHeader order ws)
    \<and> (checkHeader order ws bs = Err errNotPrecompiledChunk \<longleftrightarrow> Signature h \<noteq> Signature N)
    \<and> (Signature h = Signature N \<longrightarrow>
          (checkHeader order ws bs = Err errVersionMismatch
             \<longleftrightarrow> Version h \<noteq> Version N \<or> Format h \<noteq> Format N))
    \<and> (Signature h = Signature N \<and> Version h = Version N \<and> Format h = Format N \<longrightarrow>
          (checkHeader order ws bs = Err errCorrupted \<longleftrightarrow> Data h \<noteq> Data N))
    \<and> (Signature h = Signature N \<and> Version h = Version N \<and> Format h = Format N
         \<and> Data h = Data N \<and> h \<noteq> N \<longrightarrow> checkHeader order ws bs = Err errIncompatible)"
proof -
  have sig: "Signature (native_header ws) = LuaSignature"
    by (simp add: native_header_def LuaSignature_def)
  have len: "length (take 33 bs) = 33" using assms by simp
  note u = checkHeader_unfold[OF assms, of order ws]
  have b: "parse_header order (take 33 bs) = native_header ws
             \<longleftrightarrow> take 33 bs = dumpHeader order ws"
    using len by (rule parse_eq_native_iff)
  show ?thesis
    unfolding Let_def
    apply (intro conjI)
         apply (simp add: u Let_def)
        apply (rule b)
       apply (auto simp: u Let_def sig)
    done
qed

theorem checkHeader_errors_witness:
  "33 \<le> length example_header
   \<and> checkHeader LittleEndian W64 example_header = Ok () []
   \<and> example_header = dumpHeader LittleEndian W64
   \<and> checkHeader LittleEndian W64 (example_header[0 := 0x1C]) = Err errNotPrecompiledChunk
   \<and> checkHeader LittleEndian W64 (example_header[4 := 0x52]) = Err errVersionMismatch
   \<and> checkHeader LittleEndian W64 (example_header[11 := 0x0D]) = Err errCorrupted
   \<and> checkHeader LittleEndian W64 (example_header[13 := 4]) = Err errIncompatible"
proof -
  have l: "length example_header = 33" by (simp add: example_header_def)
  have h0: "33 \<le> length example_header" using l by simp
  have h1: "33 \<le> length (example_header[0 := 0x1C])" using l by simp
  have h2: "33 \<le> length (example_header[4 := 0x52])" using l by simp
  have h3: "33 \<le> length (example_header[11 := 0x0D])" using l by simp
  have h4: "33 \<le> length (example_header[13 := 4])" using l by simp
  have N: "native_header W64 =
     \<lparr>Signature = [0x1B, 0x4C, 0x75, 0x61], Version = 0x53, Format = 0,
      Data = [0x19, 0x93, 0x0D, 0x0A, 0x1A, 0x0A], IntSize = 4, PointerSize = 8,
      InstructionSize = 4, IntegerSize = 8, NumberSize = 8, TestInt = 0x5678,
      TestNum = 0x4077280000000000\<rparr>"
    by (simp add: native_header_def LuaSignature_def VersionMajor_def VersionMinor_def)
  have p0: "parse_header LittleEndian (take 33 example_header) =
     \<lparr>Signature = [0x1B, 0x4C, 0x75, 0x61], Version = 0x53, Format = 0,
      Data = [0x19, 0x93, 0x0D, 0x0A, 0x1A, 0x0A], IntSize = 4, PointerSize = 8,
      InstructionSize = 4, IntegerSize = 8, NumberSize = 8, TestInt = 0x5678,
      TestNum = 0x4077280000000000\<rparr>"
    by (simp add: parse_header_def example_header_def get_uint_def)
  have p1: "parse_header LittleEndian (take 33 (example_header[0 := 0x1C])) =
     \<lparr>Signature = [0x1C, 0x4C, 0x75, 0x61], Version = 0x53, Format = 0,
      Data = [0x19, 0x93, 0x0D, 0x0A, 0x1A, 0x0A], IntSize = 4, PointerSize = 8,
      InstructionSize = 4, IntegerSize = 8, NumberSize = 8, TestInt = 0x5678,
      TestNum = 0x4077280000000000\<rparr>"
    by (simp add: parse_header_def example_header_def get_uint_def)
  have p2: "parse_header LittleEndian (take 33 (example_header[4 := 0x52])) =
     \<lparr>Signature = [0x1B, 0x4C, 0x75, 0x61], Version = 0x52, Format = 0,
      Data = [0x19, 0x93, 0x0D, 0x0A, 0x1A, 0x0A], IntSize = 4, PointerSize = 8,
      InstructionSize = 4, IntegerSize = 8, NumberSize = 8, TestInt = 0x5678,
      TestNum = 0x4077280000000000\<rparr>"
    by (simp add: parse_header_def example_header_def get_uint_def)
  have p3: "parse_header LittleEndian (take 33 (example_header[11 := 0x0D])) =
     \<lparr>Signature = [0x1B, 0x4C, 0x75, 0x61], Version = 0x53, Format = 0,
      Data = [0x19, 0x93, 0x0D, 0x0A, 0x1A, 0x0D], IntSize = 4, PointerSize = 8,
      InstructionSize = 4, IntegerSize = 8, NumberSize = 8, TestInt = 0x5678,
      TestNum = 0x4077280000000000\<rparr>"
    by (simp add: parse_header_def example_header_def get_uint_def)
  have p4: "parse_header LittleEndian (take 33 (example_header[13 := 4])) =
     \<lparr>Signature = [0x1B, 0x4C, 0x75, 0x61], Version = 0x53, Format = 0,
      Data = [0x19, 0x93, 0x0D, 0x0A, 0x1A, 0x0A], IntSize = 4, PointerSize = 4,
      InstructionSize = 4, IntegerSize = 8, NumberSize = 8, TestInt = 0x5678,
      TestNum = 0x4077280000000000\<rparr>"
    by (simp add: parse_header_def example_header_def get_uint_def)
  have d: "drop 33 example_header = []" "take 33 example_header = example_header"
    using l by simp_all
  note T0 = checkHeader_errors[OF h0, of LittleEndian W64, unfolded Let_def p0 N d(1)]
  note T1 = checkHeader_errors[OF h1, of LittleEndian W64, unfolded Let_def p1 N]
  note T2 = checkHeader_errors[OF h2, of LittleEndian W64, unfolded Let_def p2 N]
  note T3 = checkHeader_errors[OF h3, of LittleEndian W64, unfolded Let_def p3 N]
  note T4 = checkHeader_errors[OF h4, of LittleEndian W64, unfolded Let_def p4 N]
  from T0 have a0: "checkHeader LittleEndian W64 example_header = Ok () []"
    and a0': "example_header = dumpHeader LittleEndian W64" using d(2) by simp_all
  from T1 have a1: "checkHeader LittleEndian W64 (example_header[0 := 0x1C])
                      = Err errNotPrecompiledChunk" by simp
  from T2 have a2: "checkHeader LittleEndian W64 (example_header[4 := 0x52])
                      = Err errVersionMismatch" by simp
  from T3 have a3: "checkHeader LittleEndian W64 (example_header[11 := 0x0D])
                      = Err errCorrupted" by simp
  from T4 have a4: "checkHeader LittleEndian W64 (example_header[13 := 4])
                      = Err errIncompatible" by simp
  from h0 a0 a0' a1 a2 a3 a4 show ?thesis by blast
qed

lemma checkHeader_dumpHeader: "checkHeader order ws (dumpHeader order ws @ rest) = Ok () rest"
proof -
  have l: "length (dumpHeader order ws) = 33"
    by (simp add: dumpHeader_def length_header_bytes native_header_lengths)
  then have "33 \<le> length (dumpHeader order ws @ rest)" by simp
  moreover have "parse_header order (dumpHeader order ws) = native_header ws"
    using parse_eq_native_iff[OF l] by simp
  ultimately show ?thesis using l by (simp add: checkHeader_unfold)
qed

text \<open>
  Claim C1. For every valid prototype \<open>p\<close> (sizes and line numbers fit the \<^verbatim>\<open>int32\<close>, the
  parameter count, stack size and upvalue indices fit the byte they are written in), reading
  the bytes \<open>dumpFunction\<close> wrote, or loading the chunk \<open>dump\<close> wrote, gives back \<open>p\<close>: the same source, line range, parameter
  count, vararg flag, stack size, code, constants, upvalue descriptors with their names,
  nested prototypes, line info and local variables. Any fuel above the nesting depth of
  \<open>p\<close> is enough.
\<close>

theorem dump_undump_roundtrip:
  assumes "valid_prototype ws p" "proto_depth p \<le> fuel"
  shows "readFunction fuel order ws (dumpFunction order ws p @ rest) = Ok p rest
       \<and> undump fuel order ws (dump order ws p @ rest) = Ok p rest"
proof -
  have f: "\<And>r. readFunction fuel order ws (dumpFunction order ws p @ r) = Ok p r"
    using assms by (rule readFunction_dumpFunction_ok)
  have h: "\<And>r. checkHeader order ws (dumpHeader order ws @ r) = Ok () r"
    by (rule checkHeader_dumpHeader)
  have "undump fuel order ws (dump order ws p @ rest) = Ok p rest"
    by (simp add: undump_def dump_def rbind_def h writeByte_def f)
  with f show ?thesis by simp
qed

definition example_inner :: prototype where
  "example_inner =
     Prototype [] [0x0000001E, 0x0080001E] [] [2, 2]
       [\<lparr>lv_name = [0x61], startPC = 0, endPC = 2\<rparr>] [] [] 1 1 2 3 False"

definition example_prototype :: prototype where
  "example_prototype =
     Prototype [CNil, CBool True, CInt 0xFFFFFFFFFFFFFFFF, CFloat 0x4077280000000000,
                CString [0x68, 0x69]]
       [0x0000002C, 0x0080001E] [example_inner] [1, 1] []
       [\<lparr>uv_name = [0x5F, 0x45, 0x4E, 0x56], isLocal = True, index = 0\<rparr>]
       [0x40, 0x78] 0 0 0 2 True"

theorem dump_undump_roundtrip_witness:
  "valid_prototype W64 example_prototype \<and> proto_depth example_prototype \<le> 2
   \<and> readFunction 2 LittleEndian W64 (dumpFunction LittleEndian W64 example_prototype @ [])
       = Ok example_prototype []
   \<and> undump 2 LittleEndian W64 (dump LittleEndian W64 example_prototype @ [])
       = Ok example_prototype []"
proof -
  have v: "valid_prototype W64 example_prototype"
    by (simp add: example_prototype_def example_inner_def valid_string_def host_max_int_def
        fits_int32_def fits_byte_def valid_local_def valid_upvalue_def)
  have d: "proto_depth example_prototype \<le> 2"
    by (simp add: example_prototype_def example_inner_def)
  show ?thesis
    using dump_undump_roundtrip[OF v d, of LittleEndian "[]"] v d by blast
qed

section \<open>The scanner's number literals (scanner.go)\<close>

text \<open>
  The scanner reads bytes from \<^verbatim>\<open>r\<close> into \<^verbatim>\<open>current\<close> (a rune: the byte, or \<open>-1\<close> at the end
  of the stream) and collects the text of the lexical element in \<^verbatim>\<open>buffer\<close>. A scan
  error unwinds the scanner and is the \<open>Inl\<close> result. \<^verbatim>\<open>l.assert\<close> is declared outside the
  sources; a failed assertion is an error as well.

  The float arithmetic of the host (\<^verbatim>\<open>*\<close>, \<^verbatim>\<open>+\<close>, \<^verbatim>\<open>math.Ldexp\<close>, \<^verbatim>\<open>strconv.ParseFloat\<close>)
  is a parameter. \<^verbatim>\<open>strconv.ParseInt(s, 10, 64)\<close> is modelled in full.
\<close>

datatype scan_error = MalformedNumber | AssertionFailure | OtherScanError

record scanner =
  buffer :: string
  r :: string
  current :: int
  lineNumber :: int

record token =
  tk_t :: int
  tk_n :: float64
  tk_i :: "64 word"
  tk_s :: string

record float_host =
  fmul :: "float64 \<Rightarrow> float64 \<Rightarrow> float64"
  fadd :: "float64 \<Rightarrow> float64 \<Rightarrow> float64"
  Ldexp :: "float64 \<Rightarrow> int \<Rightarrow> float64"
  ParseFloat :: "string \<Rightarrow> float64 \<times> bool"

definition endOfStream :: int where "endOfStream = - 1"
definition tkNumber :: int where "tkNumber = 290"
definition tkInteger :: int where "tkInteger = 291"

definition rune :: "char \<Rightarrow> int" where
  "rune c = of_char c"

definition isDecimal :: "int \<Rightarrow> bool" where
  "isDecimal c = (rune CHR ''0'' \<le> c \<and> c \<le> rune CHR ''9'')"

definition isHexadecimal :: "int \<Rightarrow> bool" where
  "isHexadecimal c =
     (rune CHR ''0'' \<le> c \<and> c \<le> rune CHR ''9'' \<or> rune CHR ''a'' \<le> c \<and> c \<le> rune CHR ''f''
      \<or> rune CHR ''A'' \<le> c \<and> c \<le> rune CHR ''F'')"

definition advance :: "scanner \<Rightarrow> scanner" where
  "advance s =
     (case r s of
        [] \<Rightarrow> s\<lparr>current := endOfStream\<rparr>
      | c # cs \<Rightarrow> s\<lparr>current := rune c, r := cs\<rparr>)"

definition save :: "int \<Rightarrow> scanner \<Rightarrow> scanner" where
  "save c s = s\<lparr>buffer := buffer s @ [char_of c]\<rparr>"

definition saveAndAdvance :: "scanner \<Rightarrow> scanner" where
  "saveAndAdvance s = advance (save (current s) s)"

definition buffer_Reset :: "scanner \<Rightarrow> scanner" where
  "buffer_Reset s = s\<lparr>buffer := []\<rparr>"

definition checkNext :: "string \<Rightarrow> scanner \<Rightarrow> bool \<times> scanner" where
  "checkNext str s =
     (if current s = 0 \<or> current s \<notin> set (map rune str) then (False, s)
      else (True, saveAndAdvance s))"

definition pending :: "scanner \<Rightarrow> nat" where
  "pending s = length (r s) + (if current s = endOfStream then 0 else 1)"


lemma pending_saveAndAdvance:
  "current s \<noteq> endOfStream \<Longrightarrow> pending (saveAndAdvance s) < pending s"
  by (auto simp: pending_def advance_def saveAndAdvance_def save_def split: list.splits)

lemma pending_advance_save:
  "current s \<noteq> endOfStream \<Longrightarrow> pending (advance (save c s)) < pending s"
  by (auto simp: pending_def advance_def save_def split: list.splits)

function readDigits :: "scanner \<Rightarrow> int \<times> scanner" where
  "readDigits s =
     (if isDecimal (current s) then readDigits (saveAndAdvance s) else (current s, s))"
  by pat_completeness auto
termination
  by (relation "measure pending")
     (auto intro!: pending_saveAndAdvance simp: isDecimal_def endOfStream_def rune_def)

declare readDigits.simps [simp del]

definition hexDigit :: "int \<Rightarrow> int option" where
  "hexDigit c =
     (if rune CHR ''0'' \<le> c \<and> c \<le> rune CHR ''9'' then Some (c - rune CHR ''0'')
      else if rune CHR ''a'' \<le> c \<and> c \<le> rune CHR ''f'' then Some (c - rune CHR ''a'' + 10)
      else if rune CHR ''A'' \<le> c \<and> c \<le> rune CHR ''F'' then Some (c - rune CHR ''A'' + 10)
      else None)"

function readHexLoop ::
  "float_host \<Rightarrow> scanner \<Rightarrow> float64 \<Rightarrow> int \<Rightarrow> float64 \<times> int \<times> int \<times> scanner" where
  "readHexLoop h s n i =
     (case hexDigit (current s) of
        None \<Rightarrow> (n, current s, i, s)
      | Some d \<Rightarrow>
          readHexLoop h (advance (save (current s) s))
            (fadd h (fmul h n 0x4030000000000000) (f64_of_int d)) (int64_wrap (i + 1)))"
  by pat_completeness auto
termination
  by (relation "measure (\<lambda>(h, s, n, i). pending s)")
     (auto intro!: pending_advance_save simp: hexDigit_def endOfStream_def rune_def
           split: if_splits)

declare readHexLoop.simps [simp del]

definition readHexNumber ::
  "float_host \<Rightarrow> float64 \<Rightarrow> scanner \<Rightarrow> float64 \<times> int \<times> int \<times> scanner" where
  "readHexNumber h x s =
     (if \<not> isHexadecimal (current s) then (x, current s, 0, s)
      else readHexLoop h s x 0)"

fun decValue :: "string \<Rightarrow> nat \<Rightarrow> nat" where
  "decValue [] acc = acc"
| "decValue (c # cs) acc = decValue cs (acc * 10 + (of_char c - 48))"

definition ParseInt10 :: "string \<Rightarrow> int option" where
  "ParseInt10 str =
     (let (neg, ds) =
            (case str of
               c # cs \<Rightarrow> if c = CHR ''+'' then (False, cs)
                         else if c = CHR ''-'' then (True, cs) else (False, str)
             | [] \<Rightarrow> (False, []))
      in if ds = [] \<or> \<not> list_all (\<lambda>c. isDecimal (rune c)) ds then None
         else
           let v = int (decValue ds 0)
           in if \<not> neg \<and> 2 ^ 63 \<le> v \<or> neg \<and> 2 ^ 63 < v then None
              else Some (if neg then - v else v))"

fun hexParse :: "string \<Rightarrow> 64 word \<Rightarrow> 64 word" where
  "hexParse [] uintVal = uintVal"
| "hexParse (c # cs) uintVal =
     hexParse cs (uintVal * 16 + (case hexDigit (rune c) of Some d \<Rightarrow> word_of_int d | None \<Rightarrow> 0))"

text \<open>
  The lines of \<^verbatim>\<open>readNumber\<close> that drop leading zeros:
  \<^verbatim>\<open>if strings.HasPrefix(str, "0") { if str = strings.TrimLeft(str, "0"); str == "" || !isDecimal(rune(str[0])) { str = "0" + str } }\<close>.
\<close>

definition normZeros :: "string \<Rightarrow> string" where
  "normZeros str =
     (if str \<noteq> [] \<and> hd str = CHR ''0'' then
        (let str = dropWhile (\<lambda>c. c = CHR ''0'') str
         in if str = [] \<or> \<not> isDecimal (rune (hd str)) then CHR ''0'' # str else str)
      else str)"

definition numberError :: "scan_error + 'a" where
  "numberError = Inl MalformedNumber"

definition readNumber :: "float_host \<Rightarrow> scanner \<Rightarrow> scan_error + (token \<times> scanner)" where
  "readNumber h s0 =
     (let c = current s0 in
      if \<not> isDecimal c then Inl AssertionFailure
      else
        let s = saveAndAdvance s0;
            (hex, s) = (if c = rune CHR ''0'' then checkNext ''Xx'' s else (False, s))
        in
        if hex then
          (let prefix = buffer s in
           if \<not> (prefix = ''0x'' \<or> prefix = ''0X'') then Inl AssertionFailure
           else
             let s = buffer_Reset s;
                 (fraction, c, i, s) = readHexNumber h 0 s;
                 (isFloat, fraction, c, exponent, s) =
                   (if c = rune CHR ''.''
                    then (let (fraction, c, exponent, s) = readHexNumber h fraction (advance s)
                          in (True, fraction, c, exponent, s))
                    else (False, fraction, c, 0, s))
             in
             if i = 0 \<and> exponent = 0 then numberError
             else
               let exponent = int64_wrap (exponent * - 4) in
               (case
                  (if c = rune CHR ''p'' \<or> c = rune CHR ''P'' then
                     (let s = advance (buffer_Reset s);
                          c = current s;
                          (negativeExponent, s) =
                            (if c = rune CHR ''+'' \<or> c = rune CHR ''-''
                             then (c = rune CHR ''-'', advance s) else (False, s))
                      in
                      if \<not> isDecimal (current s) then numberError
                      else
                        let (_, s) = readDigits s in
                        (case ParseInt10 (buffer s) of
                           None \<Rightarrow> numberError
                         | Some e \<Rightarrow>
                             Inr (True,
                                  if negativeExponent then int64_wrap (exponent + int64_wrap (- e))
                                  else int64_wrap (exponent + e),
                                  buffer_Reset s)))
                   else Inr (isFloat, exponent, s))
                of
                  Inl err \<Rightarrow> Inl err
                | Inr (isFloat, exponent, s) \<Rightarrow>
                    if \<not> isFloat \<and> exponent = 0 then
                      (let hexStr = buffer s; s = buffer_Reset s
                       in Inr (\<lparr>tk_t = tkInteger, tk_n = 0, tk_i = hexParse hexStr 0, tk_s = []\<rparr>, s))
                    else
                      Inr (\<lparr>tk_t = tkNumber, tk_n = Ldexp h fraction exponent, tk_i = 0, tk_s = []\<rparr>,
                           buffer_Reset s)))
        else
          (let (c, s) = readDigits s;
               (isFloat, c, s) =
                 (if c = rune CHR ''.''
                  then (let (c, s) = readDigits (saveAndAdvance s) in (True, c, s))
                  else (False, c, s));
               (isFloat, s) =
                 (if c = rune CHR ''e'' \<or> c = rune CHR ''E'' then
                    (let s = saveAndAdvance s;
                         c = current s;
                         s = (if c = rune CHR ''+'' \<or> c = rune CHR ''-'' then saveAndAdvance s else s);
                         (_, s) = readDigits s
                     in (True, s))
                  else (isFloat, s));
               str = buffer s;
               str = normZeros str;
               s = buffer_Reset s
           in
           (case (if \<not> isFloat then ParseInt10 str else None) of
              Some intVal \<Rightarrow>
                Inr (\<lparr>tk_t = tkInteger, tk_n = 0, tk_i = word_of_int intVal, tk_s = []\<rparr>, s)
            | None \<Rightarrow>
                (case ParseFloat h str of
                   (f, True) \<Rightarrow> Inr (\<lparr>tk_t = tkNumber, tk_n = f, tk_i = 0, tk_s = []\<rparr>, s)
                 | (f, False) \<Rightarrow> numberError))))"

subsection \<open>Scanning a given text\<close>

text \<open>
  \<open>feed inp s\<close> is the scanner \<open>s\<close> positioned at the text \<open>inp\<close>: its first byte is
  \<^verbatim>\<open>current\<close> and the rest is still to be read. \<open>hexValue\<close> and \<open>decValue\<close> are the values
  of a digit string.
\<close>

definition feed :: "string \<Rightarrow> scanner \<Rightarrow> scanner" where
  "feed inp s =
     (case inp of
        [] \<Rightarrow> s\<lparr>current := endOfStream, r := []\<rparr>
      | c # cs \<Rightarrow> s\<lparr>current := rune c, r := cs\<rparr>)"

definition first_rune :: "string \<Rightarrow> int" where
  "first_rune inp = (case inp of [] \<Rightarrow> endOfStream | c # _ \<Rightarrow> rune c)"

text \<open>
  The value of a hexadecimal numeral is fixed by the table \<open>hexDigits\<close> of its digits, which
  is written down on its own and not derived from the scanner's digit switch.
\<close>

definition hexDigits :: "(char \<times> nat) list" where
  "hexDigits =
     [(CHR ''0'', 0), (CHR ''1'', 1), (CHR ''2'', 2), (CHR ''3'', 3), (CHR ''4'', 4),
      (CHR ''5'', 5), (CHR ''6'', 6), (CHR ''7'', 7), (CHR ''8'', 8), (CHR ''9'', 9),
      (CHR ''a'', 10), (CHR ''b'', 11), (CHR ''c'', 12), (CHR ''d'', 13), (CHR ''e'', 14),
      (CHR ''f'', 15),
      (CHR ''A'', 10), (CHR ''B'', 11), (CHR ''C'', 12), (CHR ''D'', 13), (CHR ''E'', 14),
      (CHR ''F'', 15)]"

definition hexDigitValue :: "char \<Rightarrow> nat" where
  "hexDigitValue c = (case map_of hexDigits c of Some v \<Rightarrow> v | None \<Rightarrow> 0)"

fun hexValue :: "string \<Rightarrow> nat \<Rightarrow> nat" where
  "hexValue [] v = v"
| "hexValue (c # cs) v = hexValue cs (v * 16 + hexDigitValue c)"

lemma char_of_rune [simp]: "char_of (rune c) = c"
  by (simp add: rune_def)

lemma rune_range: "0 \<le> rune c" "rune c < 256"
proof -
  have e: "rune c = int (of_char c)" by (simp add: rune_def of_nat_of_char)
  show "0 \<le> rune c" unfolding e by simp
  have "(of_char c :: nat) < 256" by simp
  then show "rune c < 256" unfolding e by linarith
qed

lemma rune_neq_eos [simp]: "rune c \<noteq> endOfStream"
  using rune_range(1)[of c] by (simp add: endOfStream_def)

lemma rune_eq_iff [simp]: "rune a = rune b \<longleftrightarrow> a = b"
  by (simp add: rune_def)

lemma current_feed [simp]: "current (feed inp s) = first_rune inp"
  by (cases inp) (simp_all add: feed_def first_rune_def)

lemma buffer_feed [simp]: "buffer (feed inp s) = buffer s"
  by (cases inp) (simp_all add: feed_def)

lemma first_rune_Cons [simp]: "first_rune (c # cs) = rune c"
  by (simp add: first_rune_def)

lemma feed_feed [simp]: "feed a (feed b s) = feed a s"
  by (cases a; cases b) (simp_all add: feed_def)

lemma advance_feed [simp]: "advance (feed (c # cs) s) = feed cs s"
  by (cases cs) (simp_all add: advance_def feed_def)

lemma save_feed: "save x (feed inp s) = feed inp (s\<lparr>buffer := buffer s @ [char_of x]\<rparr>)"
  by (cases inp) (simp_all add: save_def feed_def)

lemma saveAndAdvance_feed [simp]:
  "saveAndAdvance (feed (c # cs) s) = feed cs (s\<lparr>buffer := buffer s @ [c]\<rparr>)"
  by (simp add: saveAndAdvance_def save_feed)

lemma buffer_Reset_feed [simp]: "buffer_Reset (feed inp s) = feed inp (s\<lparr>buffer := []\<rparr>)"
  by (cases inp) (simp_all add: buffer_Reset_def feed_def)

lemma readDigits_feed:
  assumes "list_all (\<lambda>c. isDecimal (rune c)) ds" "\<not> isDecimal (first_rune rest)"
  shows "readDigits (feed (ds @ rest) s)
           = (first_rune rest, feed rest (s\<lparr>buffer := buffer s @ ds\<rparr>))"
  using assms
proof (induction ds arbitrary: s)
  case Nil
  then show ?case by (subst readDigits.simps) simp
next
  case (Cons d ds)
  have "readDigits (feed ((d # ds) @ rest) s)
          = readDigits (feed (ds @ rest) (s\<lparr>buffer := buffer s @ [d]\<rparr>))"
    using Cons.prems by (subst readDigits.simps) simp
  also have "\<dots> = (first_rune rest, feed rest (s\<lparr>buffer := buffer s @ d # ds\<rparr>))"
    using Cons by simp
  finally show ?case .
qed

definition hexAccum :: "float_host \<Rightarrow> string \<Rightarrow> float64 \<Rightarrow> float64" where
  "hexAccum h hs n =
     fold (\<lambda>c n. fadd h (fmul h n 0x4030000000000000) (f64_of_int (int (hexDigitValue c)))) hs n"

lemma isHexadecimal_hexDigit: "isHexadecimal c \<longleftrightarrow> hexDigit c \<noteq> None"
  by (auto simp: isHexadecimal_def hexDigit_def)

lemma hex_char_cases:
  assumes "isHexadecimal (rune c)"
  shows "c \<in> set ''0123456789abcdefABCDEF''"
proof -
  have "(of_char c :: int) = of_char CHR ''0'' \<or> (of_char c :: int) = of_char CHR ''1''
      \<or> (of_char c :: int) = of_char CHR ''2'' \<or> (of_char c :: int) = of_char CHR ''3''
      \<or> (of_char c :: int) = of_char CHR ''4'' \<or> (of_char c :: int) = of_char CHR ''5''
      \<or> (of_char c :: int) = of_char CHR ''6'' \<or> (of_char c :: int) = of_char CHR ''7''
      \<or> (of_char c :: int) = of_char CHR ''8'' \<or> (of_char c :: int) = of_char CHR ''9''
      \<or> (of_char c :: int) = of_char CHR ''a'' \<or> (of_char c :: int) = of_char CHR ''b''
      \<or> (of_char c :: int) = of_char CHR ''c'' \<or> (of_char c :: int) = of_char CHR ''d''
      \<or> (of_char c :: int) = of_char CHR ''e'' \<or> (of_char c :: int) = of_char CHR ''f''
      \<or> (of_char c :: int) = of_char CHR ''A'' \<or> (of_char c :: int) = of_char CHR ''B''
      \<or> (of_char c :: int) = of_char CHR ''C'' \<or> (of_char c :: int) = of_char CHR ''D''
      \<or> (of_char c :: int) = of_char CHR ''E'' \<or> (of_char c :: int) = of_char CHR ''F''"
    using assms unfolding isHexadecimal_def rune_def by simp presburger
  then have "c = CHR ''0'' \<or> c = CHR ''1'' \<or> c = CHR ''2'' \<or> c = CHR ''3'' \<or> c = CHR ''4''
      \<or> c = CHR ''5'' \<or> c = CHR ''6'' \<or> c = CHR ''7'' \<or> c = CHR ''8'' \<or> c = CHR ''9''
      \<or> c = CHR ''a'' \<or> c = CHR ''b'' \<or> c = CHR ''c'' \<or> c = CHR ''d'' \<or> c = CHR ''e''
      \<or> c = CHR ''f'' \<or> c = CHR ''A'' \<or> c = CHR ''B'' \<or> c = CHR ''C'' \<or> c = CHR ''D''
      \<or> c = CHR ''E'' \<or> c = CHR ''F''"
    by (simp only: of_char_eq_iff)
  then show ?thesis by (elim disjE) simp_all
qed

lemma hexDigit_table: "list_all (\<lambda>(c, v). hexDigit (rune c) = Some (int v)) hexDigits"
  by (simp add: hexDigits_def hexDigit_def rune_def)

lemma hexDigit_value:
  assumes "isHexadecimal (rune c)"
  shows "hexDigit (rune c) = Some (int (hexDigitValue c))"
proof -
  from hex_char_cases[OF assms] have "c \<in> fst ` set hexDigits"
    by (simp add: hexDigits_def)
  then obtain v where v: "map_of hexDigits c = Some v"
    by (metis domD dom_map_of_conv_image_fst)
  then have "(c, v) \<in> set hexDigits" by (rule map_of_SomeD)
  with hexDigit_table have "hexDigit (rune c) = Some (int v)"
    by (auto simp: list_all_iff)
  then show ?thesis by (simp add: hexDigitValue_def v)
qed

lemma readHexLoop_feed:
  assumes "list_all (\<lambda>c. isHexadecimal (rune c)) hs" "\<not> isHexadecimal (first_rune rest)"
    and "0 \<le> i" "i + int (length hs) < 2 ^ 63"
  shows "readHexLoop h (feed (hs @ rest) s) n i
           = (hexAccum h hs n, first_rune rest, i + int (length hs),
              feed rest (s\<lparr>buffer := buffer s @ hs\<rparr>))"
  using assms
proof (induction hs arbitrary: s n i)
  case Nil
  then show ?case
    by (subst readHexLoop.simps) (simp add: isHexadecimal_hexDigit hexAccum_def)
next
  case (Cons c hs)
  define d where "d = int (hexDigitValue c)"
  from Cons.prems(1) have d: "hexDigit (rune c) = Some d"
    by (simp add: d_def hexDigit_value)
  have w: "int64_wrap (i + 1) = i + 1" using Cons.prems by (intro int64_wrap_id) auto
  have "readHexLoop h (feed ((c # hs) @ rest) s) n i
          = readHexLoop h (feed (hs @ rest) (s\<lparr>buffer := buffer s @ [c]\<rparr>))
              (fadd h (fmul h n 0x4030000000000000) (f64_of_int d)) (i + 1)"
    by (subst readHexLoop.simps) (simp add: d w save_feed)
  also have "\<dots> = (hexAccum h hs (fadd h (fmul h n 0x4030000000000000) (f64_of_int d)),
                     first_rune rest, i + 1 + int (length hs),
                     feed rest (s\<lparr>buffer := buffer s @ c # hs\<rparr>))"
    using Cons.prems by (subst Cons.IH) auto
  finally show ?case by (simp add: hexAccum_def d_def)
qed

lemma hexParse_value:
  "list_all (\<lambda>c. isHexadecimal (rune c)) hs
     \<Longrightarrow> hexParse hs (word_of_nat v) = word_of_nat (hexValue hs v)"
proof (induction hs arbitrary: v)
  case Nil
  then show ?case by simp
next
  case (Cons c hs)
  define d where "d = int (hexDigitValue c)"
  from Cons.prems have d: "hexDigit (rune c) = Some d"
    by (simp add: d_def hexDigit_value)
  have d0: "0 \<le> d" by (simp add: d_def)
  have "(word_of_int d :: 64 word) = word_of_nat (nat d)" using d0 by simp
  then have e: "(word_of_nat v :: 64 word) * 16 + word_of_int d = word_of_nat (v * 16 + nat d)"
    by simp
  have "hexParse (c # hs) (word_of_nat v) = hexParse hs (word_of_nat (v * 16 + nat d))"
    by (simp only: hexParse.simps d option.case e)
  also have "\<dots> = word_of_nat (hexValue hs (v * 16 + nat d))"
    using Cons.prems by (intro Cons.IH) simp
  finally show ?case by (simp add: d_def)
qed

lemma first_rune_append: "hs \<noteq> [] \<Longrightarrow> first_rune (hs @ rest) = first_rune hs"
  by (cases hs) (simp_all add: first_rune_def)

lemma first_rune_hex:
  "hs \<noteq> [] \<Longrightarrow> list_all (\<lambda>c. isHexadecimal (rune c)) hs \<Longrightarrow> isHexadecimal (first_rune hs)"
  by (cases hs) (simp_all add: first_rune_def)

lemma scanner_buffer_id: "buffer s = [] \<Longrightarrow> s\<lparr>buffer := []\<rparr> = s"
  by (cases s) simp

lemma readNumber_hex_integer:
  assumes hs: "hs \<noteq> []" "list_all (\<lambda>c. isHexadecimal (rune c)) hs" "int (length hs) < 2 ^ 63"
    and rest: "\<not> isHexadecimal (first_rune rest)" "first_rune rest \<noteq> rune CHR ''.''"
      "first_rune rest \<noteq> rune CHR ''p''" "first_rune rest \<noteq> rune CHR ''P''"
    and x: "x = CHR ''x'' \<or> x = CHR ''X''" and buf: "buffer s = []"
  shows "readNumber h (feed (CHR ''0'' # x # hs @ rest) s)
           = Inr (\<lparr>tk_t = tkInteger, tk_n = 0, tk_i = word_of_nat (hexValue hs 0), tk_s = []\<rparr>,
                  feed rest s)"
proof -
  have d0: "isDecimal (rune CHR ''0'')" by (simp add: isDecimal_def rune_def)
  have cn: "checkNext ''Xx'' (feed (x # hs @ rest) (s\<lparr>buffer := ''0''\<rparr>))
              = (True, feed (hs @ rest) (s\<lparr>buffer := [CHR ''0'', x]\<rparr>))"
    using x by (auto simp: checkNext_def rune_def)
  have pre: "[CHR ''0'', x] = ''0x'' \<or> [CHR ''0'', x] = ''0X''" using x by auto
  have hl: "readHexNumber h 0 (feed (hs @ rest) s)
              = (hexAccum h hs 0, first_rune rest, int (length hs),
                 feed rest (s\<lparr>buffer := hs\<rparr>))"
    using hs rest(1) readHexLoop_feed[of hs rest 0 h s 0]
    by (simp add: readHexNumber_def first_rune_append first_rune_hex buf)
  have len: "int (length hs) \<noteq> 0" using hs(1) by simp
  have w0: "int64_wrap 0 = 0" by (simp add: int64_wrap_def)
  have hp: "hexParse hs 0 = word_of_nat (hexValue hs 0)"
    using hexParse_value[OF hs(2), of 0] by simp
  show ?thesis
    unfolding readNumber_def
    using pre rest(2,3,4) len
    by (simp add: d0 buf cn hl w0 hp scanner_buffer_id Let_def)
qed

lemma decValue_dropWhile_zero:
  "decValue (dropWhile (\<lambda>c. c = CHR ''0'') ds) 0 = decValue ds 0"
  by (induction ds) auto

lemma normZeros_digits:
  assumes "ds \<noteq> []" "list_all (\<lambda>c. isDecimal (rune c)) ds"
  shows "normZeros ds \<noteq> []" "list_all (\<lambda>c. isDecimal (rune c)) (normZeros ds)"
    and "decValue (normZeros ds) 0 = decValue ds 0"
proof -
  let ?t = "dropWhile (\<lambda>c. c = CHR ''0'') ds"
  have t: "list_all (\<lambda>c. isDecimal (rune c)) ?t"
    using assms(2) by (auto simp: list_all_iff dest: set_dropWhileD)
  have z: "isDecimal (rune CHR ''0'')" by (simp add: isDecimal_def rune_def)
  show "normZeros ds \<noteq> []" using assms(1) by (auto simp: normZeros_def Let_def)
  show "list_all (\<lambda>c. isDecimal (rune c)) (normZeros ds)"
    using assms(2) t z by (auto simp: normZeros_def Let_def)
  have "decValue (CHR ''0'' # ?t) 0 = decValue ds 0"
    by (simp add: decValue_dropWhile_zero)
  then show "decValue (normZeros ds) 0 = decValue ds 0"
    by (auto simp: normZeros_def Let_def decValue_dropWhile_zero simp del: decValue.simps)
qed

lemma digit_not_sign:
  "isDecimal (rune c) \<Longrightarrow> c \<noteq> CHR ''+'' \<and> c \<noteq> CHR ''-''"
  by (auto simp: isDecimal_def rune_def)

lemma ParseInt10_digits:
  assumes "ds \<noteq> []" "list_all (\<lambda>c. isDecimal (rune c)) ds"
  shows "ParseInt10 ds
           = (if int (decValue ds 0) < 2 ^ 63 then Some (int (decValue ds 0)) else None)"
proof -
  obtain c cs where ds: "ds = c # cs" using assms(1) by (cases ds) auto
  then have "c \<noteq> CHR ''+'' \<and> c \<noteq> CHR ''-''" using assms(2) digit_not_sign by auto
  then show ?thesis
    using assms(2) unfolding ParseInt10_def ds
    by (simp add: Let_def del: decValue.simps)
qed

lemma ParseInt10_nondigit:
  assumes "c \<in> set str" "\<not> isDecimal (rune c)" "c \<noteq> CHR ''+''" "c \<noteq> CHR ''-''"
  shows "ParseInt10 str = None"
proof -
  have "\<not> list_all (\<lambda>c. isDecimal (rune c)) str"
    using assms(1,2) by (auto simp: list_all_iff)
  moreover have "\<not> list_all (\<lambda>c. isDecimal (rune c)) (tl str)" if "hd str = CHR ''+'' \<or> hd str = CHR ''-''"
  proof -
    from assms(1) have "str \<noteq> []" by auto
    then have "c \<in> set (tl str)" using that assms by (cases str) auto
    then show ?thesis using assms(2) by (auto simp: list_all_iff)
  qed
  ultimately show ?thesis
    unfolding ParseInt10_def by (cases str) (auto simp: Let_def)
qed

lemma readNumber_decimal_integer:
  assumes ds: "ds \<noteq> []" "list_all (\<lambda>c. isDecimal (rune c)) ds"
    and rest: "\<not> isDecimal (first_rune rest)" "first_rune rest \<noteq> rune CHR ''.''"
      "first_rune rest \<noteq> rune CHR ''e''" "first_rune rest \<noteq> rune CHR ''E''"
      "ds = ''0'' \<longrightarrow> first_rune rest \<noteq> rune CHR ''x'' \<and> first_rune rest \<noteq> rune CHR ''X''"
    and buf: "buffer s = []"
  shows "readNumber h (feed (ds @ rest) s)
           = (if int (decValue ds 0) < 2 ^ 63
              then Inr (\<lparr>tk_t = tkInteger, tk_n = 0, tk_i = word_of_int (int (decValue ds 0)),
                         tk_s = []\<rparr>, feed rest s)
              else (case ParseFloat h (normZeros ds) of
                      (f, True) \<Rightarrow> Inr (\<lparr>tk_t = tkNumber, tk_n = f, tk_i = 0, tk_s = []\<rparr>, feed rest s)
                    | (f, False) \<Rightarrow> Inl MalformedNumber))"
proof -
  obtain d ds' where dd: "ds = d # ds'" using ds(1) by (cases ds) auto
  have d: "isDecimal (rune d)" and ds': "list_all (\<lambda>c. isDecimal (rune c)) ds'"
    using ds(2) dd by auto
  have nx: "first_rune (ds' @ rest) \<notin> set (map rune ''Xx'')" if "d = CHR ''0''"
  proof (cases ds')
    case Nil
    then show ?thesis using rest(5) dd that by simp
  next
    case (Cons a as)
    then have "isDecimal (rune a)" using ds' by simp
    then show ?thesis using Cons by (auto simp: isDecimal_def rune_def)
  qed
  have cn': "(if rune d = rune CHR ''0''
              then checkNext ''Xx'' (feed (ds' @ rest) (s\<lparr>buffer := [d]\<rparr>))
              else (False, feed (ds' @ rest) (s\<lparr>buffer := [d]\<rparr>)))
             = (False, feed (ds' @ rest) (s\<lparr>buffer := [d]\<rparr>))"
    using nx by (auto simp: checkNext_def)
  have rd: "readDigits (feed (ds' @ rest) (s\<lparr>buffer := [d]\<rparr>))
              = (first_rune rest, feed rest (s\<lparr>buffer := ds\<rparr>))"
    using readDigits_feed[OF ds' rest(1), of "s\<lparr>buffer := [d]\<rparr>"] by (simp add: dd)
  have pi: "ParseInt10 (normZeros ds)
              = (if int (decValue ds 0) < 2 ^ 63 then Some (int (decValue ds 0)) else None)"
    using ParseInt10_digits[OF normZeros_digits(1,2)[OF ds]] normZeros_digits(3)[OF ds]
    by simp
  have sa: "saveAndAdvance (feed (ds @ rest) s) = feed (ds' @ rest) (s\<lparr>buffer := [d]\<rparr>)"
    by (simp add: dd buf)
  have c0: "current (feed (ds @ rest) s) = rune d" by (simp add: dd)
  show ?thesis
    unfolding readNumber_def c0 Let_def sa cn' prod.case rd
    using d rest(2,3,4)
    by (simp add: pi scanner_buffer_id[OF buf] numberError_def split: prod.splits)
qed

lemma readNumber_decimal_float:
  assumes ds: "ds \<noteq> []" "list_all (\<lambda>c. isDecimal (rune c)) ds"
    and rest: "first_rune rest = rune CHR ''.'' \<or> first_rune rest = rune CHR ''e''
                 \<or> first_rune rest = rune CHR ''E''"
    and res: "readNumber h (feed (ds @ rest) s) = Inr (tok, s')"
  shows "tk_t tok = tkNumber"
proof -
  obtain d ds' where dd: "ds = d # ds'" using ds(1) by (cases ds) auto
  have d: "isDecimal (rune d)" and ds': "list_all (\<lambda>c. isDecimal (rune c)) ds'"
    using ds(2) dd by auto
  have nd: "\<not> isDecimal (first_rune rest)"
    using rest by (auto simp: isDecimal_def rune_def)
  have nx: "first_rune (ds' @ rest) \<notin> set (map rune ''Xx'')"
  proof (cases ds')
    case Nil
    then show ?thesis using rest by (auto simp: rune_def)
  next
    case (Cons a as)
    then have "isDecimal (rune a)" using ds' by simp
    then show ?thesis using Cons by (auto simp: isDecimal_def rune_def)
  qed
  have cn: "checkNext ''Xx'' (feed (ds' @ rest) (s\<lparr>buffer := buffer s @ [d]\<rparr>))
              = (False, feed (ds' @ rest) (s\<lparr>buffer := buffer s @ [d]\<rparr>))"
    using nx by (simp add: checkNext_def)
  have rd: "readDigits (feed (ds' @ rest) (s\<lparr>buffer := buffer s @ [d]\<rparr>))
              = (first_rune rest, feed rest (s\<lparr>buffer := buffer s @ ds\<rparr>))"
    using readDigits_feed[OF ds' nd, of "s\<lparr>buffer := buffer s @ [d]\<rparr>"] by (simp add: dd)
  have sa: "saveAndAdvance (feed (ds @ rest) s) = feed (ds' @ rest) (s\<lparr>buffer := buffer s @ [d]\<rparr>)"
    by (simp add: dd)
  have c0: "current (feed (ds @ rest) s) = rune d" by (simp add: dd)
  have cn': "(if rune d = rune CHR ''0''
              then checkNext ''Xx'' (feed (ds' @ rest) (s\<lparr>buffer := buffer s @ [d]\<rparr>))
              else (False, feed (ds' @ rest) (s\<lparr>buffer := buffer s @ [d]\<rparr>)))
             = (False, feed (ds' @ rest) (s\<lparr>buffer := buffer s @ [d]\<rparr>))"
    using cn by auto
  show ?thesis
    using res rest d
    unfolding readNumber_def c0 Let_def sa cn' prod.case rd
    by (auto simp: numberError_def split: prod.splits if_splits option.splits bool.splits)
qed

lemma readHexNumber_feed:
  assumes "list_all (\<lambda>c. isHexadecimal (rune c)) hs" "\<not> isHexadecimal (first_rune rest)"
    and "int (length hs) < 2 ^ 63"
  shows "readHexNumber h x (feed (hs @ rest) s)
           = (hexAccum h hs x, first_rune rest, int (length hs),
              feed rest (s\<lparr>buffer := buffer s @ hs\<rparr>))"
proof (cases "hs = []")
  case True
  then show ?thesis
    using assms(2) by (cases rest) (simp_all add: readHexNumber_def hexAccum_def feed_def first_rune_def)
next
  case False
  then show ?thesis
    using assms readHexLoop_feed[of hs rest 0 h s x]
    by (simp add: readHexNumber_def first_rune_append first_rune_hex)
qed

lemma readNumber_hex_float:
  assumes hs: "list_all (\<lambda>c. isHexadecimal (rune c)) hs" "int (length hs) < 2 ^ 63"
    and rest: "first_rune rest = rune CHR ''.'' \<or> first_rune rest = rune CHR ''p''
                 \<or> first_rune rest = rune CHR ''P''"
    and x: "x = CHR ''x'' \<or> x = CHR ''X''"
    and res: "readNumber h (feed (CHR ''0'' # x # hs @ rest) s) = Inr (tok, s')"
  shows "tk_t tok = tkNumber"
proof -
  have d0: "isDecimal (rune CHR ''0'')" by (simp add: isDecimal_def rune_def)
  have nh: "\<not> isHexadecimal (first_rune rest)"
    using rest by (auto simp: isHexadecimal_def rune_def)
  have cn: "checkNext ''Xx'' (feed (x # hs @ rest) (s\<lparr>buffer := buffer s @ ''0''\<rparr>))
              = (True, feed (hs @ rest) (s\<lparr>buffer := buffer s @ [CHR ''0'', x]\<rparr>))"
    using x by (auto simp: checkNext_def rune_def)
  have hl: "readHexNumber h 0 (feed (hs @ rest) (s\<lparr>buffer := []\<rparr>))
              = (hexAccum h hs 0, first_rune rest, int (length hs),
                 feed rest (s\<lparr>buffer := hs\<rparr>))"
    using readHexNumber_feed[OF hs(1) nh hs(2), of h 0 "s\<lparr>buffer := []\<rparr>"] by simp
  show ?thesis
    using res rest
    unfolding readNumber_def
    by (auto simp: d0 cn hl Let_def numberError_def
             split: prod.splits if_splits option.splits sum.splits)
qed

lemma readDigits_buffer: "\<exists>suffix. buffer (snd (readDigits s)) = buffer s @ suffix"
proof (induction s rule: readDigits.induct)
  case (1 s)
  show ?case
  proof (cases "isDecimal (current s)")
    case True
    then obtain suffix where
      "buffer (snd (readDigits (saveAndAdvance s))) = buffer (saveAndAdvance s) @ suffix"
      using 1 by blast
    moreover have "buffer (saveAndAdvance s) = buffer s @ [char_of (current s)]"
      by (simp add: saveAndAdvance_def advance_def save_def split: list.splits)
    ultimately show ?thesis using True by (subst readDigits.simps) simp
  next
    case False
    then show ?thesis by (subst readDigits.simps) simp
  qed
qed

definition dot_led :: "scanner \<Rightarrow> bool" where
  "dot_led s = (\<exists>suffix. buffer s = CHR ''.'' # suffix)"

lemma dot_led_saveAndAdvance: "dot_led s \<Longrightarrow> dot_led (saveAndAdvance s)"
  by (auto simp: dot_led_def saveAndAdvance_def advance_def save_def split: list.splits)

lemma dot_led_readDigits: "dot_led s \<Longrightarrow> dot_led (snd (readDigits s))"
  using readDigits_buffer[of s] by (auto simp: dot_led_def)

lemma dot_led_checkNext: "dot_led s \<Longrightarrow> dot_led (snd (checkNext str s))"
  by (auto simp: checkNext_def dot_led_saveAndAdvance)

lemma dot_led_not_prefix: "dot_led s \<Longrightarrow> buffer s \<noteq> ''0x'' \<and> buffer s \<noteq> ''0X''"
  by (auto simp: dot_led_def)

lemma dot_led_ParseInt10: "dot_led s \<Longrightarrow> ParseInt10 (normZeros (buffer s)) = None"
proof -
  assume "dot_led s"
  then obtain suffix where b: "buffer s = CHR ''.'' # suffix" by (auto simp: dot_led_def)
  then have "normZeros (buffer s) = buffer s" by (simp add: normZeros_def)
  moreover have "ParseInt10 (buffer s) = None"
    by (rule ParseInt10_nondigit[of "CHR ''.''"]) (simp_all add: b isDecimal_def rune_def)
  ultimately show ?thesis by simp
qed

lemma readNumber_leading_dot:
  assumes "buffer s = ''.''" "readNumber h s = Inr (tok, s')"
  shows "tk_t tok = tkNumber"
proof -
  have a: "dot_led (saveAndAdvance s)"
    using assms(1) by (intro dot_led_saveAndAdvance) (simp add: dot_led_def)
  define s1 where "s1 = saveAndAdvance s"
  define hx where "hx = (if current s = rune CHR ''0'' then checkNext ''Xx'' s1 else (False, s1))"
  have h2: "dot_led (snd hx)"
    using a dot_led_checkNext[of s1 "''Xx''"] by (auto simp: hx_def s1_def)
  obtain hex s2 where hx2: "hx = (hex, s2)" by (cases hx)
  with h2 have d2: "dot_led s2" by simp
  obtain c3 s3 where r3: "readDigits s2 = (c3, s3)" by (cases "readDigits s2")
  have d3: "dot_led s3" using dot_led_readDigits[OF d2] r3 by simp
  obtain c4 s4 where r4: "readDigits (saveAndAdvance s3) = (c4, s4)"
    by (cases "readDigits (saveAndAdvance s3)")
  have d4: "dot_led s4" using dot_led_readDigits[OF dot_led_saveAndAdvance[OF d3]] r4 by simp
  have tail: "dot_led (snd (readDigits t))" "dot_led (snd (readDigits (saveAndAdvance t)))"
    if "dot_led (saveAndAdvance t')" "t = saveAndAdvance t'" for t t'
    using that dot_led_readDigits dot_led_saveAndAdvance by auto
  have e3: "\<And>u. dot_led u \<Longrightarrow> ParseInt10 (normZeros (buffer (snd (readDigits (saveAndAdvance u))))) = None"
    "\<And>u. dot_led u \<Longrightarrow> ParseInt10 (normZeros (buffer (snd (readDigits (saveAndAdvance (saveAndAdvance u)))))) = None"
    by (auto intro!: dot_led_ParseInt10 dot_led_readDigits dot_led_saveAndAdvance)
  show ?thesis
    using assms(2) dot_led_not_prefix[OF d2] dot_led_ParseInt10[OF d3] dot_led_ParseInt10[OF d4]
      e3(1)[OF d3] e3(2)[OF d3] e3(1)[OF d4] e3(2)[OF d4]
    unfolding readNumber_def Let_def s1_def[symmetric] hx_def[symmetric] hx2 prod.case r3
    by (auto simp: r4 numberError_def
             split: prod.splits if_splits option.splits bool.splits)
qed

definition scan0 :: scanner where
  "scan0 = \<lparr>buffer = [], r = [], current = 0, lineNumber = 1\<rparr>"

definition host0 :: float_host where
  "host0 = \<lparr>fmul = (\<lambda>a b. 0), fadd = (\<lambda>a b. 0), Ldexp = (\<lambda>f e. 0), ParseFloat = (\<lambda>str. (0, True))\<rparr>"

lemma sint_word_of_nat_wrap: "sint (word_of_nat v :: 64 word) = int64_wrap (int v)"
proof -
  have "sint (word_of_nat v :: 64 word) = signed_take_bit 63 (int v)"
    by (simp add: signed_of_nat)
  also have "\<dots> = take_bit 64 (int v + 2 ^ 63) - 2 ^ 63"
    by (simp add: signed_take_bit_eq_take_bit_shift)
  also have "\<dots> = int64_wrap (int v)"
    by (simp add: int64_wrap_def take_bit_eq_mod)
  finally show ?thesis .
qed

text \<open>
  Claim C4. A hexadecimal integer literal (\<^verbatim>\<open>0x\<close> or \<^verbatim>\<open>0X\<close>, at least one hex digit, and
  then neither a hex digit, a \<^verbatim>\<open>.\<close> nor a \<^verbatim>\<open>p\<close>) is scanned as an integer token and leaves the
  scanner at the text after it; the token's int64 is the literal's value \<open>hexValue hs 0\<close>
  reduced modulo \<open>2^64\<close>, read as two's complement. The value \<open>hexValue hs 0\<close> is the base-16
  numeral over the digit table \<open>hexDigits\<close>.
\<close>

theorem hex_integer_literal_wraps:
  assumes "hs \<noteq> []" "list_all (\<lambda>c. isHexadecimal (rune c)) hs" "int (length hs) < 2 ^ 63"
    and "\<not> isHexadecimal (first_rune rest)" "first_rune rest \<noteq> rune CHR ''.''"
      "first_rune rest \<noteq> rune CHR ''p''" "first_rune rest \<noteq> rune CHR ''P''"
    and "x = CHR ''x'' \<or> x = CHR ''X''" and "buffer s = []"
  shows "\<exists>tok. readNumber h (feed (CHR ''0'' # x # hs @ rest) s) = Inr (tok, feed rest s)
           \<and> tk_t tok = tkInteger
           \<and> uint (tk_i tok) = int (hexValue hs 0) mod 2 ^ 64
           \<and> sint (tk_i tok) = int64_wrap (int (hexValue hs 0))"
proof -
  let ?tok = "\<lparr>tk_t = tkInteger, tk_n = 0, tk_i = word_of_nat (hexValue hs 0), tk_s = []\<rparr>"
  have "readNumber h (feed (CHR ''0'' # x # hs @ rest) s) = Inr (?tok, feed rest s)"
    using assms by (rule readNumber_hex_integer)
  moreover have "uint (word_of_nat (hexValue hs 0) :: 64 word) = int (hexValue hs 0) mod 2 ^ 64"
    using unat_of_nat[where 'a=64, of "hexValue hs 0"]
    by (simp add: uint_nat zmod_int)
  ultimately show ?thesis by (auto simp: sint_word_of_nat_wrap)
qed

lemma hexValue_F16: "hexValue ''FFFFFFFFFFFFFFFF'' 0 = 2 ^ 64 - 1"
  by (simp add: hexDigitValue_def hexDigits_def)

lemma hexValue_examples:
  "hexValue ''0123456789abcdef'' 0 = 81985529216486895"
  "hexValue ''FEDCBA9876543210'' 0 = 18364758544493064720"
  "hexValue ''10000000000000010'' 0 = 2 ^ 64 + 16"
  by (simp_all add: hexDigitValue_def hexDigits_def)

text \<open>
  Three literals that between them use every hex digit in both cases:
  \<^verbatim>\<open>0x0123456789abcdef\<close> is \<open>81985529216486895\<close>, \<^verbatim>\<open>0XFEDCBA9876543210\<close> is
  \<open>18364758544493064720 - 2^64 = -81985529216486896\<close>, and the 17-digit
  \<^verbatim>\<open>0x10000000000000010\<close>, \<open>2^64 + 16\<close>, wraps to \<open>16\<close>.
\<close>

theorem hex_integer_literal_wraps_witness:
  "(\<exists>tok. readNumber host0 (feed ''0x0123456789abcdef'' scan0) = Inr (tok, feed [] scan0)
      \<and> tk_t tok = tkInteger \<and> sint (tk_i tok) = 81985529216486895)
   \<and> (\<exists>tok. readNumber host0 (feed ''0XFEDCBA9876543210;'' scan0) = Inr (tok, feed '';'' scan0)
      \<and> tk_t tok = tkInteger \<and> sint (tk_i tok) = - 81985529216486896)
   \<and> (\<exists>tok. readNumber host0 (feed ''0x10000000000000010'' scan0) = Inr (tok, feed [] scan0)
      \<and> tk_t tok = tkInteger \<and> sint (tk_i tok) = 16)"
proof -
  have a: "''0123456789abcdef'' \<noteq> []"
    "list_all (\<lambda>c. isHexadecimal (rune c)) ''0123456789abcdef''"
    "int (length ''0123456789abcdef'') < 2 ^ 63"
    "\<not> isHexadecimal (first_rune [])" "first_rune [] \<noteq> rune CHR ''.''"
    "first_rune [] \<noteq> rune CHR ''p''" "first_rune [] \<noteq> rune CHR ''P''"
    "CHR ''x'' = CHR ''x'' \<or> CHR ''x'' = CHR ''X''" "buffer scan0 = []"
    by (simp_all add: isHexadecimal_def rune_def first_rune_def endOfStream_def scan0_def)
  have b: "''FEDCBA9876543210'' \<noteq> []"
    "list_all (\<lambda>c. isHexadecimal (rune c)) ''FEDCBA9876543210''"
    "int (length ''FEDCBA9876543210'') < 2 ^ 63"
    "\<not> isHexadecimal (first_rune '';'')" "first_rune '';'' \<noteq> rune CHR ''.''"
    "first_rune '';'' \<noteq> rune CHR ''p''" "first_rune '';'' \<noteq> rune CHR ''P''"
    "CHR ''X'' = CHR ''x'' \<or> CHR ''X'' = CHR ''X''" "buffer scan0 = []"
    by (simp_all add: isHexadecimal_def rune_def first_rune_def endOfStream_def scan0_def)
  have c: "''10000000000000010'' \<noteq> []"
    "list_all (\<lambda>c. isHexadecimal (rune c)) ''10000000000000010''"
    "int (length ''10000000000000010'') < 2 ^ 63"
    "\<not> isHexadecimal (first_rune [])" "first_rune [] \<noteq> rune CHR ''.''"
    "first_rune [] \<noteq> rune CHR ''p''" "first_rune [] \<noteq> rune CHR ''P''"
    "CHR ''x'' = CHR ''x'' \<or> CHR ''x'' = CHR ''X''" "buffer scan0 = []"
    by (simp_all add: isHexadecimal_def rune_def first_rune_def endOfStream_def scan0_def)
  have w: "int64_wrap (int (hexValue ''0123456789abcdef'' 0)) = 81985529216486895"
    "int64_wrap (int (hexValue ''FEDCBA9876543210'' 0)) = - 81985529216486896"
    "int64_wrap (int (hexValue ''10000000000000010'' 0)) = 16"
    unfolding hexValue_examples by (simp_all add: int64_wrap_def)
  from hex_integer_literal_wraps[OF a, of host0] w(1)
  have 1: "\<exists>tok. readNumber host0 (feed ''0x0123456789abcdef'' scan0) = Inr (tok, feed [] scan0)
      \<and> tk_t tok = tkInteger \<and> sint (tk_i tok) = 81985529216486895"
    by auto
  from hex_integer_literal_wraps[OF b, of host0] w(2)
  have 2: "\<exists>tok. readNumber host0 (feed ''0XFEDCBA9876543210;'' scan0) = Inr (tok, feed '';'' scan0)
      \<and> tk_t tok = tkInteger \<and> sint (tk_i tok) = - 81985529216486896"
    by auto
  from hex_integer_literal_wraps[OF c, of host0] w(3)
  have 3: "\<exists>tok. readNumber host0 (feed ''0x10000000000000010'' scan0) = Inr (tok, feed [] scan0)
      \<and> tk_t tok = tkInteger \<and> sint (tk_i tok) = 16"
    by auto
  from 1 2 3 show ?thesis by blast
qed

text \<open>
  Claim C5 as stated fails on hexadecimal literals: \<^verbatim>\<open>0xFFFFFFFFFFFFFFFF\<close> has no \<^verbatim>\<open>.\<close> and no
  exponent, its value \<open>2^64 - 1\<close> does not fit in int64, and it is an integer token all the same.
\<close>

theorem integer_token_iff_fits_counterexample:
  "readNumber host0 (feed ''0xFFFFFFFFFFFFFFFF'' scan0)
     = Inr (\<lparr>tk_t = tkInteger, tk_n = 0, tk_i = 0xFFFFFFFFFFFFFFFF, tk_s = []\<rparr>, feed [] scan0)
   \<and> \<not> int (hexValue ''FFFFFFFFFFFFFFFF'' 0) < 2 ^ 63"
proof -
  have a: "''FFFFFFFFFFFFFFFF'' \<noteq> []"
    "list_all (\<lambda>c. isHexadecimal (rune c)) ''FFFFFFFFFFFFFFFF''"
    "int (length ''FFFFFFFFFFFFFFFF'') < 2 ^ 63"
    "\<not> isHexadecimal (first_rune [])" "first_rune [] \<noteq> rune CHR ''.''"
    "first_rune [] \<noteq> rune CHR ''p''" "first_rune [] \<noteq> rune CHR ''P''"
    "CHR ''x'' = CHR ''x'' \<or> CHR ''x'' = CHR ''X''" "buffer scan0 = []"
    by (simp_all add: isHexadecimal_def rune_def first_rune_def endOfStream_def scan0_def)
  have v: "(word_of_nat (hexValue ''FFFFFFFFFFFFFFFF'' 0) :: 64 word) = 0xFFFFFFFFFFFFFFFF"
    unfolding hexValue_F16 by simp
  have n: "\<not> int (hexValue ''FFFFFFFFFFFFFFFF'' 0) < 2 ^ 63"
    unfolding hexValue_F16 by simp
  from readNumber_hex_integer[OF a, of host0] v n show ?thesis by simp
qed

text \<open>
  Claim C5, amended. A decimal literal with no \<^verbatim>\<open>.\<close> and no exponent is an integer token when
  its value fits in int64 and a float token otherwise; a hexadecimal literal with no \<^verbatim>\<open>.\<close> and
  no \<^verbatim>\<open>p\<close> exponent is always an integer token (its value wraps); every accepted literal with
  a \<^verbatim>\<open>.\<close>, a decimal exponent or a hex \<^verbatim>\<open>p\<close> exponent is a float token.
\<close>

theorem numeric_literal_token_kind:
  "(ds \<noteq> [] \<and> list_all (\<lambda>c. isDecimal (rune c)) ds \<and> \<not> isDecimal (first_rune rest)
      \<and> first_rune rest \<noteq> rune CHR ''.'' \<and> first_rune rest \<noteq> rune CHR ''e''
      \<and> first_rune rest \<noteq> rune CHR ''E''
      \<and> (ds = ''0'' \<longrightarrow> first_rune rest \<noteq> rune CHR ''x'' \<and> first_rune rest \<noteq> rune CHR ''X'')
      \<and> buffer s = []
     \<longrightarrow> readNumber h (feed (ds @ rest) s)
           = (if int (decValue ds 0) < 2 ^ 63
              then Inr (\<lparr>tk_t = tkInteger, tk_n = 0, tk_i = word_of_int (int (decValue ds 0)),
                         tk_s = []\<rparr>, feed rest s)
              else (case ParseFloat h (normZeros ds) of
                      (f, True) \<Rightarrow> Inr (\<lparr>tk_t = tkNumber, tk_n = f, tk_i = 0, tk_s = []\<rparr>, feed rest s)
                    | (f, False) \<Rightarrow> Inl MalformedNumber)))
   \<and> (hs \<noteq> [] \<and> list_all (\<lambda>c. isHexadecimal (rune c)) hs \<and> int (length hs) < 2 ^ 63
      \<and> \<not> isHexadecimal (first_rune rest) \<and> first_rune rest \<noteq> rune CHR ''.''
      \<and> first_rune rest \<noteq> rune CHR ''p'' \<and> first_rune rest \<noteq> rune CHR ''P''
      \<and> (x = CHR ''x'' \<or> x = CHR ''X'') \<and> buffer s = []
     \<longrightarrow> readNumber h (feed (CHR ''0'' # x # hs @ rest) s)
           = Inr (\<lparr>tk_t = tkInteger, tk_n = 0, tk_i = word_of_nat (hexValue hs 0), tk_s = []\<rparr>,
                  feed rest s))
   \<and> (ds \<noteq> [] \<and> list_all (\<lambda>c. isDecimal (rune c)) ds
      \<and> (first_rune rest = rune CHR ''.'' \<or> first_rune rest = rune CHR ''e''
           \<or> first_rune rest = rune CHR ''E'')
      \<and> readNumber h (feed (ds @ rest) s) = Inr (tok, s')
     \<longrightarrow> tk_t tok = tkNumber)
   \<and> (list_all (\<lambda>c. isHexadecimal (rune c)) hs \<and> int (length hs) < 2 ^ 63
      \<and> (first_rune rest = rune CHR ''.'' \<or> first_rune rest = rune CHR ''p''
           \<or> first_rune rest = rune CHR ''P'')
      \<and> (x = CHR ''x'' \<or> x = CHR ''X'')
      \<and> readNumber h (feed (CHR ''0'' # x # hs @ rest) s) = Inr (tok, s')
     \<longrightarrow> tk_t tok = tkNumber)
   \<and> (buffer s = ''.'' \<and> readNumber h s = Inr (tok, s') \<longrightarrow> tk_t tok = tkNumber)"
  using readNumber_decimal_integer[of ds rest s h] readNumber_hex_integer[of hs rest x s h]
    readNumber_decimal_float[of ds rest h s tok s'] readNumber_hex_float[of hs rest x h s tok s']
    readNumber_leading_dot[of s h tok s']
  by blast

definition tokNumber0 :: token where
  "tokNumber0 = \<lparr>tk_t = tkNumber, tk_n = 0, tk_i = 0, tk_s = []\<rparr>"

lemma readNumber_example_hex_float:
  "readNumber host0 (feed ''0x1p4'' scan0) = Inr (tokNumber0, feed [] scan0)"
proof -
  have d0: "isDecimal (rune CHR ''0'')" "isDecimal (rune CHR ''4'')"
    by (simp_all add: isDecimal_def rune_def)
  have cn: "checkNext ''Xx'' (feed ''x1p4'' (scan0\<lparr>buffer := ''0''\<rparr>))
              = (True, feed ''1p4'' (scan0\<lparr>buffer := ''0x''\<rparr>))"
    by (simp add: checkNext_def rune_def)
  have hl: "readHexNumber host0 0 (feed ''1p4'' scan0)
              = (hexAccum host0 ''1'' 0, rune CHR ''p'', 1, feed ''p4'' (scan0\<lparr>buffer := ''1''\<rparr>))"
    using readHexNumber_feed[of "''1''" "''p4''" host0 0 scan0]
    by (simp add: isHexadecimal_def rune_def scan0_def)
  have rd: "readDigits (feed ''4'' scan0)
              = (endOfStream, feed [] (scan0\<lparr>buffer := ''4''\<rparr>))"
    using readDigits_feed[of "''4''" "[]" scan0]
    by (simp add: isDecimal_def rune_def first_rune_def endOfStream_def scan0_def)
  have pi: "ParseInt10 ''4'' = Some 4"
    by (simp add: ParseInt10_def isDecimal_def rune_def)
  have b0: "scan0\<lparr>buffer := []\<rparr> = scan0" by (simp add: scan0_def)
  have w: "int64_wrap 0 = 0" "int64_wrap 4 = 4" by (simp_all add: int64_wrap_def)
  have bs: "buffer scan0 = []" by (simp add: scan0_def)
  have ld: "Ldexp host0 f e = 0" for f e by (simp add: host0_def)
  show ?thesis
    unfolding readNumber_def tokNumber0_def
    by (simp add: d0 cn hl rd pi w b0 bs ld Let_def)
qed

theorem numeric_literal_token_kind_witness:
  "readNumber host0 (feed ''42'' scan0)
     = Inr (\<lparr>tk_t = tkInteger, tk_n = 0, tk_i = 42, tk_s = []\<rparr>, feed [] scan0)
   \<and> readNumber host0 (feed ''9223372036854775808'' scan0) = Inr (tokNumber0, feed [] scan0)
   \<and> readNumber host0 (feed ''0xff'' scan0)
     = Inr (\<lparr>tk_t = tkInteger, tk_n = 0, tk_i = 255, tk_s = []\<rparr>, feed [] scan0)
   \<and> readNumber host0 (feed ''1.5'' scan0) = Inr (tokNumber0, feed [] scan0)
   \<and> readNumber host0 (feed ''0x1p4'' scan0) = Inr (tokNumber0, feed [] scan0)
   \<and> readNumber host0 (feed ''5'' (scan0\<lparr>buffer := ''.''\<rparr>)) = Inr (tokNumber0, feed [] scan0)
   \<and> tk_t tokNumber0 = tkNumber"
proof -
  have e3: "readNumber host0 (feed ''1.5'' scan0) = Inr (tokNumber0, feed [] scan0)"
    by code_simp
  note e4 = readNumber_example_hex_float
  have e5: "readNumber host0 (feed ''5'' (scan0\<lparr>buffer := ''.''\<rparr>)) = Inr (tokNumber0, feed [] scan0)"
    by code_simp
  have b5: "buffer (feed ''5'' (scan0\<lparr>buffer := ''.''\<rparr>)) = ''.''" by simp
  have side: "''42'' \<noteq> []" "list_all (\<lambda>c. isDecimal (rune c)) ''42''"
    "''9223372036854775808'' \<noteq> []" "list_all (\<lambda>c. isDecimal (rune c)) ''9223372036854775808''"
    "''1'' \<noteq> []" "list_all (\<lambda>c. isDecimal (rune c)) ''1''"
    "''ff'' \<noteq> []" "list_all (\<lambda>c. isHexadecimal (rune c)) ''ff''" "int (length ''ff'') < 2 ^ 63"
    "list_all (\<lambda>c. isHexadecimal (rune c)) ''1''" "int (length ''1'') < 2 ^ 63"
    "\<not> isDecimal (first_rune [])" "\<not> isHexadecimal (first_rune [])"
    "first_rune [] \<noteq> rune CHR ''.''" "first_rune [] \<noteq> rune CHR ''e''"
    "first_rune [] \<noteq> rune CHR ''E''" "first_rune [] \<noteq> rune CHR ''p''"
    "first_rune [] \<noteq> rune CHR ''P''" "first_rune [] \<noteq> rune CHR ''x''"
    "first_rune [] \<noteq> rune CHR ''X''" "buffer scan0 = []"
    "first_rune ''.5'' = rune CHR ''.''" "first_rune ''p4'' = rune CHR ''p''"
    by (simp_all add: isDecimal_def isHexadecimal_def rune_def first_rune_def endOfStream_def
        scan0_def)
  have v42: "decValue ''42'' 0 = 42" by simp
  have vbig: "decValue ''9223372036854775808'' 0 = 2 ^ 63" by simp
  have vff: "hexValue ''ff'' 0 = 255" by (simp add: hexDigitValue_def hexDigits_def)
  have pf: "ParseFloat host0 str = (0, True)" for str by (simp add: host0_def)
  note T1 = numeric_literal_token_kind[of "''42''" "[]" scan0 host0 "''ff''" "CHR ''x''" tokNumber0 "feed [] scan0"]
  note T2 = numeric_literal_token_kind[of "''9223372036854775808''" "[]" scan0 host0 "''ff''" "CHR ''x''" tokNumber0 "feed [] scan0"]
  note T3 = numeric_literal_token_kind[of "''1''" "''.5''" scan0 host0 "''1''" "CHR ''x''" tokNumber0 "feed [] scan0"]
  note T4 = numeric_literal_token_kind[of "''1''" "''p4''" scan0 host0 "''1''" "CHR ''x''" tokNumber0 "feed [] scan0"]
  note T5 = numeric_literal_token_kind[of "''1''" "[]" "feed ''5'' (scan0\<lparr>buffer := ''.''\<rparr>)" host0 "''1''" "CHR ''x''" tokNumber0 "feed [] scan0"]
  have a1: "readNumber host0 (feed ''42'' scan0)
     = Inr (\<lparr>tk_t = tkInteger, tk_n = 0, tk_i = 42, tk_s = []\<rparr>, feed [] scan0)"
    using T1[THEN conjunct1] side by (simp only: v42) simp
  have a2: "readNumber host0 (feed ''9223372036854775808'' scan0) = Inr (tokNumber0, feed [] scan0)"
    using T2[THEN conjunct1] side by (simp only: vbig) (simp add: pf tokNumber0_def)
  have a3: "readNumber host0 (feed ''0xff'' scan0)
     = Inr (\<lparr>tk_t = tkInteger, tk_n = 0, tk_i = 255, tk_s = []\<rparr>, feed [] scan0)"
    using T1[THEN conjunct2, THEN conjunct1] side by (simp only: vff) simp
  have a4: "tk_t tokNumber0 = tkNumber"
    using T3[THEN conjunct2, THEN conjunct2, THEN conjunct1] side e3 by simp
  have a5: "tk_t tokNumber0 = tkNumber"
    using T4[THEN conjunct2, THEN conjunct2, THEN conjunct2, THEN conjunct1] side e4 by simp
  have a6: "tk_t tokNumber0 = tkNumber"
    using T5[THEN conjunct2, THEN conjunct2, THEN conjunct2, THEN conjunct2] b5 e5 by blast
  from a1 a2 a3 a4 a5 a6 e3 e4 e5 show ?thesis by blast
qed

section \<open>Float arithmetic and for-loop limits (types.go)\<close>

text \<open>
  Modelled from the spec: the type \<^verbatim>\<open>Operator\<close> and its constants are declared outside the
  sources; these are the operators the spec's arithmetic rules name.
\<close>

datatype Operator =
    OpAdd | OpSub | OpMul | OpMod | OpPow | OpDiv | OpIDiv
  | OpBand | OpBor | OpBxor | OpShl | OpShr | OpUnaryMinus | OpBnot

text \<open>
  The host's float operations used by \<^verbatim>\<open>arith\<close> (\<^verbatim>\<open>+\<close>, \<^verbatim>\<open>-\<close>, \<^verbatim>\<open>*\<close>, \<^verbatim>\<open>/\<close>,
  \<^verbatim>\<open>math.Floor\<close>, \<^verbatim>\<open>math.Pow\<close>, \<^verbatim>\<open>math.Pow10\<close>) are parameters; negation flips the sign
  bit. A panic is the \<open>Inl\<close> result.
\<close>

record math_host = float_host +
  fsub :: "float64 \<Rightarrow> float64 \<Rightarrow> float64"
  fdiv :: "float64 \<Rightarrow> float64 \<Rightarrow> float64"
  Floor :: "float64 \<Rightarrow> float64"
  Pow :: "float64 \<Rightarrow> float64 \<Rightarrow> float64"
  Pow10 :: "64 word \<Rightarrow> float64"

datatype arith_panic = NotAnArithmeticOpCode Operator

definition f64_neg :: "float64 \<Rightarrow> float64" where
  "f64_neg w = w XOR 0x8000000000000000"

definition float_10 :: float64 where
  "float_10 = 0x4024000000000000"

definition arith ::
  "math_host \<Rightarrow> (float64 \<Rightarrow> 64 word) \<Rightarrow> Operator \<Rightarrow> float64 \<Rightarrow> float64 \<Rightarrow> arith_panic + float64" where
  "arith h oor op v1 v2 =
     (case op of
        OpAdd \<Rightarrow> Inr (fadd h v1 v2)
      | OpSub \<Rightarrow> Inr (fsub h v1 v2)
      | OpMul \<Rightarrow> Inr (fmul h v1 v2)
      | OpDiv \<Rightarrow> Inr (fdiv h v1 v2)
      | OpMod \<Rightarrow> Inr (fsub h v1 (fmul h (Floor h (fdiv h v1 v2)) v2))
      | OpPow \<Rightarrow>
          if f64_eq v1 float_10 \<and> f64_eq (float64_of_int64 (go_int64 oor v2)) v2
          then Inr (Pow10 h (go_int64 oor v2))
          else Inr (Pow h v1 v2)
      | OpUnaryMinus \<Rightarrow> Inr (f64_neg v1)
      | _ \<Rightarrow> Inl (NotAnArithmeticOpCode op))"

definition maxInt64 :: "64 word" where "maxInt64 = 0x7FFFFFFFFFFFFFFF"
definition minInt64 :: "64 word" where "minInt64 = 0x8000000000000000"

fun forLimit :: "(float64 \<Rightarrow> 64 word) \<Rightarrow> lua_value \<Rightarrow> 64 word \<Rightarrow> 64 word \<times> bool" where
  "forLimit oor (VInt limit) step = (limit, True)"
| "forLimit oor (VFloat limit) step =
     (case floatToInteger oor limit of
        (i, True) \<Rightarrow> (i, True)
      | (_, False) \<Rightarrow>
          if 0 < sint step then
            (if f64_gt limit 0 then (maxInt64, True) else (minInt64, True))
          else
            (if f64_lt limit 0 then (minInt64, True) else (maxInt64, True)))"
| "forLimit oor _ step = (0, False)"

lemma go_int64_in_range:
  assumes "f64_val f = Finite q" "- (2 ^ 63) \<le> q" "q < 2 ^ 63"
  shows "go_int64 oor f = word_of_int (trunc_rat q)"
    and "float64_of_int64 (go_int64 oor f) = f64_of_int (trunc_rat q)"
proof -
  have t: "- (2 ^ 63) \<le> trunc_rat q" "trunc_rat q < 2 ^ 63"
    using assms trunc_rat_range[of q] by auto
  show g: "go_int64 oor f = word_of_int (trunc_rat q)"
    using assms(1) t by (simp add: go_int64_def Let_def)
  have "sint (word_of_int (trunc_rat q) :: 64 word) = trunc_rat q"
    using t by (simp add: signed_of_int signed_take_bit_int_eq_self)
  then show "float64_of_int64 (go_int64 oor f) = f64_of_int (trunc_rat q)"
    by (simp add: g float64_of_int64_def)
qed

lemma roundtrip_integral:
  assumes "f64_val f = Finite (of_int k)" "- (2 ^ 63) \<le> k" "k < 2 ^ 63"
  shows "f64_eq (float64_of_int64 (go_int64 oor f)) f" "go_int64 oor f = word_of_int k"
proof -
  have r: "- (2 ^ 63) \<le> (of_int k :: rat)" "(of_int k :: rat) < 2 ^ 63"
  proof -
    have "(of_int (- (2 ^ 63)) :: rat) \<le> of_int k" using assms(2) by (simp only: of_int_le_iff)
    then show "- (2 ^ 63) \<le> (of_int k :: rat)" by simp
    have "(of_int k :: rat) < of_int (2 ^ 63)" using assms(3) by (simp only: of_int_less_iff)
    then show "(of_int k :: rat) < 2 ^ 63" by simp
  qed
  note g = go_int64_in_range[OF assms(1) r, of oor]
  show "go_int64 oor f = word_of_int k" using g(1) by simp
  have "\<bar>k\<bar> \<le> 2 ^ 63" using assms(2,3) by linarith
  then have "f64_val (f64_of_int k) = Finite (of_int k)"
    using assms(1) by (rule f64_of_int_representable[rotated])
  then show "f64_eq (float64_of_int64 (go_int64 oor f)) f"
    using g(2) assms(1) by (simp add: f64_eq_def)
qed

lemma roundtrip_nonintegral:
  assumes "f64_val f = Finite q" "q \<notin> \<int>"
  shows "\<not> f64_eq (float64_of_int64 (go_int64 oor f)) f"
proof -
  have small: "\<bar>q\<bar> < 2 ^ 53" using assms by (rule f64_nonintegral_small)
  then have r: "- (2 ^ 63) \<le> q" "q < 2 ^ 63" by (auto simp: abs_less_iff)
  note g = go_int64_in_range[OF assms(1) r, of oor]
  have "\<bar>of_int (trunc_rat q) :: rat\<bar> \<le> \<bar>q\<bar>" by (rule trunc_rat_abs)
  then have "\<bar>of_int (trunc_rat q) :: rat\<bar> < 2 ^ 53" using small by simp
  then have "(of_int \<bar>trunc_rat q\<bar> :: rat) < of_int (2 ^ 53)" by simp
  then have "\<bar>trunc_rat q\<bar> < 2 ^ 53" by (simp only: of_int_less_iff)
  then have "f64_val (f64_of_int (trunc_rat q)) = Finite (of_int (trunc_rat q))"
    by (rule f64_of_int_small)
  moreover have "(of_int (trunc_rat q) :: rat) \<noteq> q" using assms(2) by (metis Ints_of_int)
  ultimately show ?thesis using g(2) assms(1) by (simp add: f64_eq_def)
qed

lemma float_10_val: "f64_val float_10 = Finite 10"
  by (simp add: float_10_def f64_val_def f64_exp_def f64_frac_def f64_sign_def
      power_int_minus_divide)

lemma f64_eq_float_10: "f64_eq v float_10 \<longleftrightarrow> f64_val v = Finite 10"
  by (cases "f64_val v") (simp_all add: f64_eq_def float_10_val)

text \<open>
  A host for closed examples. \<^verbatim>\<open>int64(f)\<close> out of range gives \<open>-2^63\<close>, as on amd64. \<open>Pow\<close> and
  \<open>Pow10\<close> are tables of the values Go's \<^verbatim>\<open>math.Pow\<close> and \<^verbatim>\<open>math.Pow10\<close> return at the
  arguments used below: \<^verbatim>\<open>math.Pow10(72)\<close> is the product \<open>1e64 * 1e8\<close> of two table entries,
  \<open>0x4EE21C81F7DD43A7\<close>, and \<^verbatim>\<open>math.Pow(10, 72)\<close>, computed by repeated squaring, is
  \<open>0x4EE21C81F7DD43A8\<close>, one unit in the last place above it; at \<open>33\<close> both are
  \<open>0x46C8A6E32246C99D\<close>; \<^verbatim>\<open>math.Pow(10, 0.5)\<close> is \<^verbatim>\<open>math.Sqrt(10)\<close>; \<^verbatim>\<open>math.Pow(10, NaN)\<close> is
  NaN. Outside the tables the result is NaN; the other operations are not used by the
  \<^verbatim>\<open>OpPow\<close> case.
\<close>

definition amd64_oor :: "float64 \<Rightarrow> 64 word" where
  "amd64_oor f = 0x8000000000000000"

definition example_Pow :: "float64 \<Rightarrow> float64 \<Rightarrow> float64" where
  "example_Pow x y =
     (if x = 0x4024000000000000 \<and> y = 0x4052000000000000 then 0x4EE21C81F7DD43A8
      else if x = 0x4024000000000000 \<and> y = 0x4040800000000000 then 0x46C8A6E32246C99D
      else if x = 0x4024000000000000 \<and> y = 0x3FE0000000000000 then 0x40094C583ADA5B53
      else 0x7FF8000000000001)"

definition example_Pow10 :: "64 word \<Rightarrow> float64" where
  "example_Pow10 n =
     (if n = 72 then 0x4EE21C81F7DD43A7
      else if n = 33 then 0x46C8A6E32246C99D
      else 0x7FF8000000000001)"

definition example_math_host :: math_host where
  "example_math_host =
     \<lparr>fmul = (\<lambda>a b. 0), fadd = (\<lambda>a b. 0), Ldexp = (\<lambda>f e. 0), ParseFloat = (\<lambda>str. (0, True)),
      fsub = (\<lambda>a b. 0), fdiv = (\<lambda>a b. 0), Floor = (\<lambda>a. a),
      Pow = example_Pow, Pow10 = example_Pow10\<rparr>"

lemma float_72_val: "f64_val 0x4052000000000000 = Finite (of_int 72)"
  by (simp add: f64_val_def f64_exp_def f64_frac_def f64_sign_def power_int_minus_divide)

lemma float_half_val: "f64_val 0x3FE0000000000000 = Finite (1 / 2)"
  by (simp add: f64_val_def f64_exp_def f64_frac_def f64_sign_def power_int_minus_divide)

lemma half_not_int: "(1 / 2 :: rat) \<notin> \<int>"
proof
  assume "(1 / 2 :: rat) \<in> \<int>"
  then obtain k :: int where "(1 / 2 :: rat) = of_int k" by (auto elim: Ints_cases)
  then have "(of_int (2 * k) :: rat) = of_int 1" by simp
  then have "2 * k = 1" by (simp only: of_int_eq_iff)
  then show False by presburger
qed

lemma float_33_val: "f64_val 0x4040800000000000 = Finite (of_int 33)"
  by (simp add: f64_val_def f64_exp_def f64_frac_def f64_sign_def power_int_minus_divide)

lemma float_3_5_val: "f64_val 0x400C000000000000 = Finite (7 / 2)"
  by (simp add: f64_val_def f64_exp_def f64_frac_def f64_sign_def power_int_minus_divide)

lemma seven_halves_not_int: "(7 / 2 :: rat) \<notin> \<int>"
proof
  assume "(7 / 2 :: rat) \<in> \<int>"
  then obtain k :: int where "(7 / 2 :: rat) = of_int k" by (auto elim: Ints_cases)
  then have "(of_int (2 * k) :: rat) = of_int 7" by simp
  then have "2 * k = 7" by (simp only: of_int_eq_iff)
  then show False by presburger
qed

text \<open>
  Claim C9 as stated fails: the special case in \<^verbatim>\<open>arith\<close> is code, not a comment. At
  \<open>(OpPow, 10.0, 72.0)\<close> the result is \<^verbatim>\<open>math.Pow10(72)\<close>, which is not \<^verbatim>\<open>math.Pow(10, 72)\<close>.
\<close>

theorem arith_pow_counterexample:
  "arith example_math_host amd64_oor OpPow 0x4024000000000000 0x4052000000000000
     = Inr 0x4EE21C81F7DD43A7
   \<and> Pow example_math_host 0x4024000000000000 0x4052000000000000 = 0x4EE21C81F7DD43A8
   \<and> arith example_math_host amd64_oor OpPow 0x4024000000000000 0x4052000000000000
     \<noteq> Inr (Pow example_math_host 0x4024000000000000 0x4052000000000000)"
proof -
  have "- (2 ^ 63) \<le> (72 :: int)" "(72 :: int) < 2 ^ 63" by simp_all
  from roundtrip_integral[OF float_72_val this, of amd64_oor]
  have "f64_eq (float64_of_int64 (go_int64 amd64_oor 0x4052000000000000)) 0x4052000000000000"
    and "go_int64 amd64_oor 0x4052000000000000 = 72"
    by simp_all
  moreover have "f64_eq 0x4024000000000000 float_10"
    unfolding f64_eq_float_10 using float_10_val by (simp add: float_10_def)
  ultimately show ?thesis
    by (simp add: arith_def example_math_host_def example_Pow_def example_Pow10_def)
qed

text \<open>
  Claim C9, amended. The special case is active: \<open>arith(OpPow, v1, v2)\<close> is
  \<^verbatim>\<open>math.Pow10(int(v2))\<close> when \<open>v1 == 10\<close> and \<^verbatim>\<open>float64(int(v2)) == v2\<close>, and
  \<^verbatim>\<open>math.Pow(v1, v2)\<close> for every other pair. The test on \<open>v2\<close> holds for every integral
  \<open>v2\<close> in the int64 range (and then \<open>int(v2)\<close> is that integer) and fails for every
  non-integral \<open>v2\<close> and for NaN.
\<close>

theorem arith_pow_cases:
  "arith h oor OpPow v1 v2
     = Inr (if f64_val v1 = Finite 10 \<and> f64_eq (float64_of_int64 (go_int64 oor v2)) v2
            then Pow10 h (go_int64 oor v2) else Pow h v1 v2)
   \<and> (f64_val v2 = Finite (of_int k) \<and> - (2 ^ 63) \<le> k \<and> k < 2 ^ 63
        \<longrightarrow> f64_eq (float64_of_int64 (go_int64 oor v2)) v2 \<and> go_int64 oor v2 = word_of_int k)
   \<and> (f64_val v2 = Finite q \<and> q \<notin> \<int> \<longrightarrow> \<not> f64_eq (float64_of_int64 (go_int64 oor v2)) v2)
   \<and> (f64_val v2 = NaN \<longrightarrow> \<not> f64_eq (float64_of_int64 (go_int64 oor v2)) v2)"
proof -
  have a: "arith h oor OpPow v1 v2
     = Inr (if f64_val v1 = Finite 10 \<and> f64_eq (float64_of_int64 (go_int64 oor v2)) v2
            then Pow10 h (go_int64 oor v2) else Pow h v1 v2)"
    by (simp add: arith_def f64_eq_float_10)
  have b: "f64_val v2 = Finite (of_int k) \<and> - (2 ^ 63) \<le> k \<and> k < 2 ^ 63
        \<longrightarrow> f64_eq (float64_of_int64 (go_int64 oor v2)) v2 \<and> go_int64 oor v2 = word_of_int k"
    using roundtrip_integral[of v2 k oor] by blast
  have c: "f64_val v2 = Finite q \<and> q \<notin> \<int> \<longrightarrow> \<not> f64_eq (float64_of_int64 (go_int64 oor v2)) v2"
    using roundtrip_nonintegral[of v2 q oor] by blast
  have d: "f64_val v2 = NaN \<longrightarrow> \<not> f64_eq (float64_of_int64 (go_int64 oor v2)) v2"
    by (cases "f64_val (float64_of_int64 (go_int64 oor v2))") (simp_all add: f64_eq_def)
  from a b c d show ?thesis by blast
qed

text \<open>
  With the example host: \<open>10 ^ 72\<close> and \<open>10 ^ 33\<close> go through \<^verbatim>\<open>math.Pow10\<close>,
  \<open>10 ^ 0.5\<close> and \<open>10 ^ NaN\<close> through \<^verbatim>\<open>math.Pow\<close>.
\<close>

theorem arith_pow_cases_witness:
  "arith example_math_host amd64_oor OpPow 0x4024000000000000 0x4052000000000000
     = Inr (Pow10 example_math_host 72)
   \<and> arith example_math_host amd64_oor OpPow 0x4024000000000000 0x4040800000000000
     = Inr (Pow10 example_math_host 33)
   \<and> arith example_math_host amd64_oor OpPow 0x4024000000000000 0x3FE0000000000000
     = Inr (Pow example_math_host 0x4024000000000000 0x3FE0000000000000)
   \<and> arith example_math_host amd64_oor OpPow 0x4024000000000000 0x7FF8000000000001
     = Inr (Pow example_math_host 0x4024000000000000 0x7FF8000000000001)"
proof -
  have r72: "- (2 ^ 63) \<le> (72 :: int)" "(72 :: int) < 2 ^ 63" by simp_all
  have r33: "- (2 ^ 63) \<le> (33 :: int)" "(33 :: int) < 2 ^ 63" by simp_all
  have nan: "f64_val 0x7FF8000000000001 = NaN"
    by (simp add: f64_val_def f64_exp_def f64_frac_def)
  have ten: "f64_val 0x4024000000000000 = Finite 10"
    using float_10_val by (simp add: float_10_def)
  note T1 = arith_pow_cases[of example_math_host amd64_oor "0x4024000000000000"
      "0x4052000000000000" 72 "1 / 2"]
  note T2 = arith_pow_cases[of example_math_host amd64_oor "0x4024000000000000"
      "0x4040800000000000" 33 "1 / 2"]
  note T3 = arith_pow_cases[of example_math_host amd64_oor "0x4024000000000000"
      "0x3FE0000000000000" 0 "1 / 2"]
  note T4 = arith_pow_cases[of example_math_host amd64_oor "0x4024000000000000"
      "0x7FF8000000000001" 0 "1 / 2"]
  from T1 float_72_val r72
  have e1: "f64_eq (float64_of_int64 (go_int64 amd64_oor 0x4052000000000000)) 0x4052000000000000"
    and g1: "go_int64 amd64_oor 0x4052000000000000 = word_of_int 72" by blast+
  from T1 have "arith example_math_host amd64_oor OpPow 0x4024000000000000 0x4052000000000000
     = Inr (if f64_val 0x4024000000000000 = Finite 10
              \<and> f64_eq (float64_of_int64 (go_int64 amd64_oor 0x4052000000000000)) 0x4052000000000000
            then Pow10 example_math_host (go_int64 amd64_oor 0x4052000000000000)
            else Pow example_math_host 0x4024000000000000 0x4052000000000000)" by blast
  then have a1: "arith example_math_host amd64_oor OpPow 0x4024000000000000 0x4052000000000000
     = Inr (Pow10 example_math_host 72)"
    using e1 g1 ten by simp
  from T2 float_33_val r33
  have e2: "f64_eq (float64_of_int64 (go_int64 amd64_oor 0x4040800000000000)) 0x4040800000000000"
    and g2: "go_int64 amd64_oor 0x4040800000000000 = word_of_int 33" by blast+
  from T2 have "arith example_math_host amd64_oor OpPow 0x4024000000000000 0x4040800000000000
     = Inr (if f64_val 0x4024000000000000 = Finite 10
              \<and> f64_eq (float64_of_int64 (go_int64 amd64_oor 0x4040800000000000)) 0x4040800000000000
            then Pow10 example_math_host (go_int64 amd64_oor 0x4040800000000000)
            else Pow example_math_host 0x4024000000000000 0x4040800000000000)" by blast
  then have a2: "arith example_math_host amd64_oor OpPow 0x4024000000000000 0x4040800000000000
     = Inr (Pow10 example_math_host 33)"
    using e2 g2 ten by simp
  from T3 float_half_val half_not_int
  have e3: "\<not> f64_eq (float64_of_int64 (go_int64 amd64_oor 0x3FE0000000000000)) 0x3FE0000000000000"
    by blast
  from T3 have "arith example_math_host amd64_oor OpPow 0x4024000000000000 0x3FE0000000000000
     = Inr (if f64_val 0x4024000000000000 = Finite 10
              \<and> f64_eq (float64_of_int64 (go_int64 amd64_oor 0x3FE0000000000000)) 0x3FE0000000000000
            then Pow10 example_math_host (go_int64 amd64_oor 0x3FE0000000000000)
            else Pow example_math_host 0x4024000000000000 0x3FE0000000000000)" by blast
  then have a3: "arith example_math_host amd64_oor OpPow 0x4024000000000000 0x3FE0000000000000
     = Inr (Pow example_math_host 0x4024000000000000 0x3FE0000000000000)"
    using e3 by simp
  from T4 nan
  have e4: "\<not> f64_eq (float64_of_int64 (go_int64 amd64_oor 0x7FF8000000000001)) 0x7FF8000000000001"
    by blast
  from T4 have "arith example_math_host amd64_oor OpPow 0x4024000000000000 0x7FF8000000000001
     = Inr (if f64_val 0x4024000000000000 = Finite 10
              \<and> f64_eq (float64_of_int64 (go_int64 amd64_oor 0x7FF8000000000001)) 0x7FF8000000000001
            then Pow10 example_math_host (go_int64 amd64_oor 0x7FF8000000000001)
            else Pow example_math_host 0x4024000000000000 0x7FF8000000000001)" by blast
  then have a4: "arith example_math_host amd64_oor OpPow 0x4024000000000000 0x7FF8000000000001
     = Inr (Pow example_math_host 0x4024000000000000 0x7FF8000000000001)"
    using e4 by simp
  from a1 a2 a3 a4 show ?thesis by blast
qed

lemma f64_zero_val: "f64_val 0 = Finite 0"
  by (simp add: f64_val_def f64_exp_def f64_frac_def f64_sign_def)

lemma floatToInteger_nonintegral:
  assumes "f64_val l = Finite q" and "q \<notin> \<int>"
  shows "floatToInteger oor l = (0, False)"
  using assms by (simp add: floatToInteger_char)

text \<open>
  Claim C2. The iteration count \<open>max(0, floor((l - i)/s) + 1)\<close> needs the integer limit of a
  float \<open>l\<close> to be \<open>floor l\<close> (step positive) or \<open>ceil l\<close> (step negative). \<^verbatim>\<open>forLimit\<close> does
  not compute that: a float limit that is finite and not integral fails \<^verbatim>\<open>floatToInteger\<close>
  and then falls into the branch written for limits outside the int64 range, so the integer
  loop is given the limit \<open>MaxInt64\<close> or \<open>MinInt64\<close>, chosen by the signs of step and limit only.
\<close>

theorem forLimit_nonintegral_float:
  assumes "f64_val l = Finite q" and "q \<notin> \<int>"
  shows "forLimit oor (VFloat l) step
           = (if 0 < sint step then (if 0 < q then maxInt64 else minInt64)
              else (if q < 0 then minInt64 else maxInt64), True)"
  using assms
  by (simp add: floatToInteger_nonintegral f64_gt_def f64_lt_def f64_zero_val)

theorem forLimit_nonintegral_float_witness:
  "f64_val 0x400C000000000000 = Finite (7 / 2) \<and> (7 / 2 :: rat) \<notin> \<int>
   \<and> forLimit amd64_oor (VFloat 0x400C000000000000) 1 = (0x7FFFFFFFFFFFFFFF, True)"
  using forLimit_nonintegral_float[OF float_3_5_val seven_halves_not_int, of amd64_oor 1]
  by (simp add: float_3_5_val seven_halves_not_int maxInt64_def)

section \<open>The scanner's tokens (scanner.go)\<close>




definition simple_token :: "int \<Rightarrow> token" where
  "simple_token t = \<lparr>tk_t = t, tk_n = 0, tk_i = 0, tk_s = []\<rparr>"










lemma pending_save [simp]: "pending (save c s) = pending s"
  by (simp add: pending_def save_def)

lemma pending_buffer_Reset [simp]: "pending (buffer_Reset s) = pending s"
  by (simp add: pending_def buffer_Reset_def)





lemma pending_lineNumber [simp]: "pending (s\<lparr>lineNumber := n\<rparr>) = pending s"
  by (simp add: pending_def)





subsection \<open>Quoted strings\<close>












lemma pending_fold_save [simp]: "pending (fold (\<lambda>b. save (f b)) str s) = pending s"
  by (induction str arbitrary: s) simp_all








subsection \<open>Names and reserved words\<close>





subsection \<open>The scanner's main loop\<close>










section \<open>String to number coercion (types.go)\<close>


definition asciiSpace :: "char \<Rightarrow> bool" where
  "asciiSpace c =
     (c = CHR 0x09 \<or> c = CHR 0x0A \<or> c = CHR 0x0B \<or> c = CHR 0x0C \<or> c = CHR 0x0D \<or> c = CHR '' '')"

definition isASCII :: "string \<Rightarrow> bool" where
  "isASCII s = list_all (\<lambda>c. (of_char c :: nat) < 0x80) s"





text \<open>\<^verbatim>\<open>math.IsInf(v, 0)\<close> and \<^verbatim>\<open>math.IsNaN(v)\<close>.\<close>

definition IsInf :: "float64 \<Rightarrow> bool" where
  "IsInf v = (f64_val v = PosInf \<or> f64_val v = NegInf)"

definition IsNaN :: "float64 \<Rightarrow> bool" where
  "IsNaN v = (f64_val v = NaN)"


definition getNumber :: "token \<Rightarrow> float64 \<times> bool" where
  "getNumber t =
     (if tk_t t = tkNumber then (tk_n t, True)
      else if tk_t t = tkInteger then (float64_of_int64 (tk_i t), True)
      else (0, False))"


text \<open>
  \<^verbatim>\<open>toNumber\<close>. A Go string is a byte sequence; \<open>string_of\<close> reads it as the scanner's
  text. \<^verbatim>\<open>protectedCall\<close> catches a panic of \<^verbatim>\<open>parseNumber\<close>, and then \<open>v\<close> is still \<open>0\<close>.
\<close>

definition string_of :: "gostring \<Rightarrow> string" where
  "string_of bs = map (\<lambda>b. char_of (unat b)) bs"

definition bytes_of :: "string \<Rightarrow> gostring" where
  "bytes_of s = map (\<lambda>c. of_char c) s"


subsection \<open>Scanning a numeral given as a string\<close>









subsection \<open>Integers convert to finite floats\<close>


lemma f64_exp_not_2047_Finite: "f64_exp w \<noteq> 2047 \<Longrightarrow> \<exists>q. f64_val w = Finite q"
  by (simp add: f64_val_def Let_def)




lemma finite_not_IsInf_IsNaN: "f64_exp w \<noteq> 2047 \<Longrightarrow> \<not> IsInf w \<and> \<not> IsNaN w"
  using f64_exp_not_2047_Finite[of w] by (auto simp: IsInf_def IsNaN_def)

subsection \<open>Trimming and splitting ASCII text\<close>

lemma string_of_bytes_of [simp]: "string_of (bytes_of s) = s"
proof -
  have "char_of (unat (of_char c :: 8 word)) = c" for c :: char
  proof -
    have "(of_char c :: 8 word) = word_of_nat (of_char c)" by (rule of_nat_of_char[symmetric])
    then have "unat (of_char c :: 8 word) = of_char c mod 2 ^ 8"
      using unat_of_nat[where 'a = 8, of "of_char c"] by simp
    also have "\<dots> = of_char c" by simp
    finally show ?thesis by simp
  qed
  then show ?thesis by (simp add: string_of_def bytes_of_def map_idI)
qed


lemma isASCII_append [simp]: "isASCII (a @ b) \<longleftrightarrow> isASCII a \<and> isASCII b"
  by (simp add: isASCII_def)







definition plain_text :: "string \<Rightarrow> bool" where
  "plain_text s = (isASCII s \<and> (\<forall>c \<in> set s. \<not> asciiSpace c) \<and> CHR 0x00 \<notin> set s)"



lemma plain_text_Cons: "plain_text (c # cs) \<longleftrightarrow> plain_text [c] \<and> plain_text cs"
  by (auto simp: plain_text_def isASCII_def)


subsection \<open>Parsing a signed numeral\<close>







lemma getNumber_tok [simp]: "getNumber (simple_token (rune CHR ''-'')) = (0, False)"
  "getNumber (simple_token (rune CHR ''+'')) = (0, False)"
  by (simp_all add: getNumber_def simple_token_def tkNumber_def tkInteger_def rune_def)


subsection \<open>Integer numerals\<close>









subsection \<open>Numerals the scanner reads as floats\<close>



subsection \<open>Examples\<close>









end
